theory Spec2Isabelle
  imports Main "HOL-Library.Multiset"
begin

section \<open>Python lists and their failures\<close>

text \<open>
  The solver keeps everything in plain Python lists of integers. Reading or writing a
  list outside its bounds raises \<open>IndexError\<close>, and \<open>list.index\<close> raises
  \<open>ValueError\<close> when the value is absent. Both are results of the model.
\<close>

datatype py_error = IndexError | ValueError

text \<open>\<open>xs[i]\<close>: a negative index counts from the end of the list.\<close>

definition py_norm :: "'a list \<Rightarrow> int \<Rightarrow> int" where
  "py_norm xs i = (if i < 0 then i + int (length xs) else i)"

definition py_in_range :: "'a list \<Rightarrow> int \<Rightarrow> bool" where
  "py_in_range xs i = (0 \<le> py_norm xs i \<and> py_norm xs i < int (length xs))"

definition py_get :: "'a list \<Rightarrow> int \<Rightarrow> py_error + 'a" where
  "py_get xs i = (if py_in_range xs i then Inr (xs ! nat (py_norm xs i)) else Inl IndexError)"

text \<open>\<open>xs[i] = v\<close>, returning the updated list.\<close>

definition py_set :: "'a list \<Rightarrow> int \<Rightarrow> 'a \<Rightarrow> py_error + 'a list" where
  "py_set xs i v = (if py_in_range xs i then Inr (xs[nat (py_norm xs i) := v]) else Inl IndexError)"

text \<open>\<open>xs.pop(i)\<close>; the source discards the popped value, so only the remaining list is returned.\<close>

definition py_pop :: "'a list \<Rightarrow> int \<Rightarrow> py_error + 'a list" where
  "py_pop xs i =
     (if py_in_range xs i
      then Inr (take (nat (py_norm xs i)) xs @ drop (Suc (nat (py_norm xs i))) xs)
      else Inl IndexError)"

text \<open>\<open>xs.index(v)\<close>: the position of the first occurrence, counted from \<open>i\<close>.\<close>

fun py_index_from :: "'a list \<Rightarrow> 'a \<Rightarrow> int \<Rightarrow> py_error + int" where
  "py_index_from [] v i = Inl ValueError"
| "py_index_from (x # xs) v i = (if x = v then Inr i else py_index_from xs v (i + 1))"

definition py_index :: "'a list \<Rightarrow> 'a \<Rightarrow> py_error + int" where
  "py_index xs v = py_index_from xs v 0"

text \<open>\<open>range(lo, hi)\<close> as the list of the integers it yields.\<close>

definition py_range :: "nat \<Rightarrow> nat \<Rightarrow> int list" where
  "py_range lo hi = map int [lo..<hi]"

section \<open>The board\<close>

type_synonym board = "int list"

definition GOAL_BOARD :: board where
  "GOAL_BOARD = [1, 2, 3, 4,
                 5, 6, 7, 8,
                 9, 10, 11, 12,
                 13, 14, 15, 0]"

text \<open>
  The check of \<open>read_board_from_user\<close>: exactly 16 integers whose sorted copy is
  \<open>list(range(16))\<close>.
\<close>

definition valid_board :: "board \<Rightarrow> bool" where
  "valid_board board = (length board = 16 \<and> sort board = py_range 0 16)"

section \<open>compute_manhattan_total\<close>

definition tile_distance :: "int \<Rightarrow> int \<Rightarrow> int" where
  "tile_distance position tile_value =
     (let current_row = position div 4;
          current_column = position mod 4;
          goal_position = tile_value - 1;
          goal_row = goal_position div 4;
          goal_column = goal_position mod 4
      in \<bar>current_row - goal_row\<bar> + \<bar>current_column - goal_column\<bar>)"

fun manhattan_loop :: "board \<Rightarrow> int list \<Rightarrow> int \<Rightarrow> py_error + int" where
  "manhattan_loop board [] total_distance = Inr total_distance"
| "manhattan_loop board (position # rest) total_distance =
     (case py_get board position of
        Inl e \<Rightarrow> Inl e
      | Inr tile_value \<Rightarrow>
          if tile_value = 0 then manhattan_loop board rest total_distance
          else manhattan_loop board rest (total_distance + tile_distance position tile_value))"

definition compute_manhattan_total :: "board \<Rightarrow> py_error + int" where
  "compute_manhattan_total board = manhattan_loop board (py_range 0 16) 0"

section \<open>generate_all_neighbor_boards\<close>

definition possible_shifts :: "int \<Rightarrow> int list" where
  "possible_shifts index_of_empty =
     (let empty_row = index_of_empty div 4;
          empty_column = index_of_empty mod 4
      in (if empty_row > 0 then [- 4] else []) @
         (if empty_row < 3 then [4] else []) @
         (if empty_column > 0 then [- 1] else []) @
         (if empty_column < 3 then [1] else []))"

text \<open>The body of the loop over the shifts: copy the board and exchange two cells.\<close>

definition swap_empty :: "board \<Rightarrow> int \<Rightarrow> int \<Rightarrow> py_error + board" where
  "swap_empty board index_of_empty shift =
     (let new_empty_position = index_of_empty + shift;
          new_board = board
      in case py_get new_board index_of_empty of
           Inl e \<Rightarrow> Inl e
         | Inr temporary \<Rightarrow>
             (case py_get new_board new_empty_position of
                Inl e \<Rightarrow> Inl e
              | Inr moved \<Rightarrow>
                  (case py_set new_board index_of_empty moved of
                     Inl e \<Rightarrow> Inl e
                   | Inr new_board' \<Rightarrow> py_set new_board' new_empty_position temporary)))"

fun neighbors_loop :: "board \<Rightarrow> int \<Rightarrow> int list \<Rightarrow> board list \<Rightarrow> py_error + board list" where
  "neighbors_loop board index_of_empty [] list_of_neighbors = Inr list_of_neighbors"
| "neighbors_loop board index_of_empty (shift # rest) list_of_neighbors =
     (case swap_empty board index_of_empty shift of
        Inl e \<Rightarrow> Inl e
      | Inr new_board \<Rightarrow>
          neighbors_loop board index_of_empty rest (list_of_neighbors @ [new_board]))"

definition generate_all_neighbor_boards :: "board \<Rightarrow> py_error + board list" where
  "generate_all_neighbor_boards board =
     (case py_index board 0 of
        Inl e \<Rightarrow> Inl e
      | Inr index_of_empty \<Rightarrow>
          neighbors_loop board index_of_empty (possible_shifts index_of_empty) [])"

section \<open>boards_are_equal and find_board_index\<close>

fun boards_are_equal_loop :: "board \<Rightarrow> board \<Rightarrow> int list \<Rightarrow> py_error + bool" where
  "boards_are_equal_loop board_a board_b [] = Inr True"
| "boards_are_equal_loop board_a board_b (position # rest) =
     (case py_get board_a position of
        Inl e \<Rightarrow> Inl e
      | Inr a \<Rightarrow>
          (case py_get board_b position of
             Inl e \<Rightarrow> Inl e
           | Inr b \<Rightarrow>
               if a \<noteq> b then Inr False
               else boards_are_equal_loop board_a board_b rest))"

definition boards_are_equal :: "board \<Rightarrow> board \<Rightarrow> py_error + bool" where
  "boards_are_equal board_a board_b = boards_are_equal_loop board_a board_b (py_range 0 16)"

fun find_board_index_loop :: "board list \<Rightarrow> board \<Rightarrow> int list \<Rightarrow> py_error + int" where
  "find_board_index_loop list_of_all_boards board [] = Inr (- 1)"
| "find_board_index_loop list_of_all_boards board (index # rest) =
     (case py_get list_of_all_boards index of
        Inl e \<Rightarrow> Inl e
      | Inr candidate \<Rightarrow>
          (case boards_are_equal candidate board of
             Inl e \<Rightarrow> Inl e
           | Inr same \<Rightarrow>
               if same then Inr index
               else find_board_index_loop list_of_all_boards board rest))"

definition find_board_index :: "board list \<Rightarrow> board \<Rightarrow> py_error + int" where
  "find_board_index list_of_all_boards board =
     find_board_index_loop list_of_all_boards board (py_range 0 (length list_of_all_boards))"

section \<open>greedy_best_first_search\<close>

text \<open>
  The three lists of the search and its counter. \<open>list_of_all_boards ! i\<close> is a board,
  \<open>parent_index ! i\<close> the index of the board that created it (\<open>- 1\<close> for the start),
  \<open>frontier_indices\<close> the indices of the boards not yet expanded.
\<close>

record search_state =
  list_of_all_boards :: "board list"
  parent_index :: "int list"
  frontier_indices :: "int list"
  number_of_expanded_boards :: int

subsection \<open>Choosing the frontier board with the smallest score\<close>

text \<open>The selection carries \<open>(best_score, best_board_index, best_frontier_position)\<close>.\<close>

fun select_loop ::
  "board list \<Rightarrow> int list \<Rightarrow> int list \<Rightarrow> int \<times> int \<times> int \<Rightarrow> py_error + (int \<times> int \<times> int)" where
  "select_loop boards frontier [] best = Inr best"
| "select_loop boards frontier (position_in_frontier # rest)
     (best_score, best_board_index, best_frontier_position) =
     (case py_get frontier position_in_frontier of
        Inl e \<Rightarrow> Inl e
      | Inr current_index \<Rightarrow>
          (case py_get boards current_index of
             Inl e \<Rightarrow> Inl e
           | Inr current_board \<Rightarrow>
               (case compute_manhattan_total current_board of
                  Inl e \<Rightarrow> Inl e
                | Inr current_score \<Rightarrow>
                    if current_score < best_score
                    then select_loop boards frontier rest
                           (current_score, current_index, position_in_frontier)
                    else select_loop boards frontier rest
                           (best_score, best_board_index, best_frontier_position))))"

definition select_best :: "board list \<Rightarrow> int list \<Rightarrow> py_error + (int \<times> int \<times> int)" where
  "select_best boards frontier =
     (case py_get frontier 0 of
        Inl e \<Rightarrow> Inl e
      | Inr best_board_index \<Rightarrow>
          (case py_get boards best_board_index of
             Inl e \<Rightarrow> Inl e
           | Inr best_board \<Rightarrow>
               (case compute_manhattan_total best_board of
                  Inl e \<Rightarrow> Inl e
                | Inr best_score \<Rightarrow>
                    select_loop boards frontier (py_range 1 (length frontier))
                      (best_score, best_board_index, 0))))"

subsection \<open>Reconstructing the path\<close>

text \<open>
  \<open>while index != -1\<close>: nothing in the loop itself bounds the walk through the parent
  links, so a walk that never ends is the value \<open>None\<close>.
\<close>

partial_function (option) walk_parents ::
  "int list \<Rightarrow> int \<Rightarrow> int list \<Rightarrow> (py_error + int list) option" where
  "walk_parents parents index path_indices =
     (if index \<noteq> - 1
      then (if py_in_range parents index
            then walk_parents parents (parents ! nat (py_norm parents index))
                   (path_indices @ [index])
            else Some (Inl IndexError))
      else Some (Inr path_indices))"

declare walk_parents.simps [code]

fun collect_boards :: "board list \<Rightarrow> int list \<Rightarrow> board list \<Rightarrow> py_error + board list" where
  "collect_boards boards [] path_of_boards = Inr path_of_boards"
| "collect_boards boards (index # rest) path_of_boards =
     (case py_get boards index of
        Inl e \<Rightarrow> Inl e
      | Inr b \<Rightarrow> collect_boards boards rest (path_of_boards @ [b]))"

definition reconstruct_path ::
  "board list \<Rightarrow> int list \<Rightarrow> int \<Rightarrow> (py_error + board list) option" where
  "reconstruct_path boards parents best_board_index =
     (case walk_parents parents best_board_index [] of
        None \<Rightarrow> None
      | Some (Inl e) \<Rightarrow> Some (Inl e)
      | Some (Inr path_indices) \<Rightarrow> Some (collect_boards boards (rev path_indices) []))"

subsection \<open>Expanding the neighbors\<close>

fun expand_loop :: "int \<Rightarrow> board list \<Rightarrow> search_state \<Rightarrow> py_error + search_state" where
  "expand_loop best_board_index [] st = Inr st"
| "expand_loop best_board_index (neighbor # rest) st =
     (case find_board_index (list_of_all_boards st) neighbor of
        Inl e \<Rightarrow> Inl e
      | Inr existing_index \<Rightarrow>
          if existing_index = - 1
          then expand_loop best_board_index rest
                 (st\<lparr>list_of_all_boards := list_of_all_boards st @ [neighbor],
                     parent_index := parent_index st @ [best_board_index],
                     frontier_indices := frontier_indices st @
                       [int (length (list_of_all_boards st @ [neighbor])) - 1]\<rparr>)
          else expand_loop best_board_index rest st)"

subsection \<open>One iteration of the main loop\<close>

datatype step_result = Return "board list" int | Continue search_state

definition search_step :: "search_state \<Rightarrow> (py_error + step_result) option" where
  "search_step st =
     (case select_best (list_of_all_boards st) (frontier_indices st) of
        Inl e \<Rightarrow> Some (Inl e)
      | Inr (best_score, best_board_index, best_frontier_position) \<Rightarrow>
     (case py_pop (frontier_indices st) best_frontier_position of
        Inl e \<Rightarrow> Some (Inl e)
      | Inr frontier' \<Rightarrow>
     (case py_get (list_of_all_boards st) best_board_index of
        Inl e \<Rightarrow> Some (Inl e)
      | Inr current_board \<Rightarrow>
     (let expanded = number_of_expanded_boards st + 1 in
      case boards_are_equal current_board GOAL_BOARD of
        Inl e \<Rightarrow> Some (Inl e)
      | Inr True \<Rightarrow>
          (case reconstruct_path (list_of_all_boards st) (parent_index st) best_board_index of
             None \<Rightarrow> None
           | Some (Inl e) \<Rightarrow> Some (Inl e)
           | Some (Inr path_of_boards) \<Rightarrow> Some (Inr (Return path_of_boards expanded)))
      | Inr False \<Rightarrow>
          (case generate_all_neighbor_boards current_board of
             Inl e \<Rightarrow> Some (Inl e)
           | Inr neighbor_boards \<Rightarrow>
               (case expand_loop best_board_index neighbor_boards
                       (st\<lparr>frontier_indices := frontier',
                           number_of_expanded_boards := expanded\<rparr>) of
                  Inl e \<Rightarrow> Some (Inl e)
                | Inr st' \<Rightarrow> Some (Inr (Continue st'))))))))"

lemma expand_loop_counter:
  "expand_loop b ns st = Inr st' \<Longrightarrow> number_of_expanded_boards st' = number_of_expanded_boards st"
  by (induction ns arbitrary: st) (auto split: sum.splits if_splits)

lemma search_step_counter:
  "search_step st = Some (Inr (Continue st')) \<Longrightarrow>
   number_of_expanded_boards st' = number_of_expanded_boards st + 1"
  by (auto simp: search_step_def Let_def dest!: expand_loop_counter
      split: sum.splits prod.splits option.splits bool.splits)

subsection \<open>The main loop and the entry point\<close>

text \<open>
  \<open>while len(frontier_indices) > 0 and number_of_expanded_boards < maximum_number_of_expansions\<close>.
  The result is \<open>(path_of_boards or None, number_of_expanded_boards)\<close>.
\<close>

function search_loop ::
  "int \<Rightarrow> search_state \<Rightarrow> (py_error + (board list option \<times> int)) option" where
  "search_loop maximum_number_of_expansions st =
     (if length (frontier_indices st) > 0 \<and>
         number_of_expanded_boards st < maximum_number_of_expansions
      then (case search_step st of
              None \<Rightarrow> None
            | Some (Inl e) \<Rightarrow> Some (Inl e)
            | Some (Inr (Return path_of_boards expanded)) \<Rightarrow>
                Some (Inr (Some path_of_boards, expanded))
            | Some (Inr (Continue st')) \<Rightarrow> search_loop maximum_number_of_expansions st')
      else Some (Inr (None, number_of_expanded_boards st)))"
  by pat_completeness auto
termination
  by (relation "measure (\<lambda>(m, st). nat (m - number_of_expanded_boards st))")
     (auto dest: search_step_counter)

definition initial_state :: "board \<Rightarrow> search_state" where
  "initial_state starting_board =
     \<lparr>list_of_all_boards = [starting_board],
      parent_index = [- 1],
      frontier_indices = [0],
      number_of_expanded_boards = 0\<rparr>"

definition greedy_best_first_search ::
  "board \<Rightarrow> int \<Rightarrow> (py_error + (board list option \<times> int)) option" where
  "greedy_best_first_search starting_board maximum_number_of_expansions =
     search_loop maximum_number_of_expansions (initial_state starting_board)"

text \<open>The default value of the parameter \<open>maximum_number_of_expansions\<close>.\<close>

definition default_maximum_number_of_expansions :: int where
  "default_maximum_number_of_expansions = 100000"

section \<open>Notions used in the statements\<close>

text \<open>What position \<open>p\<close> adds to the total in \<open>compute_manhattan_total\<close>.\<close>

definition cell_cost :: "board \<Rightarrow> int \<Rightarrow> int" where
  "cell_cost b p = (if b ! nat p = 0 then 0 else tile_distance p (b ! nat p))"

text \<open>
  The board the loop body of \<open>generate_all_neighbor_boards\<close> builds for the shift \<open>s\<close>
  when the blank is at \<open>k\<close>: the cells \<open>k\<close> and \<open>k + s\<close> exchanged.
\<close>

definition exchanged :: "board \<Rightarrow> int \<Rightarrow> int \<Rightarrow> board" where
  "exchanged b k s = b[nat k := b ! nat (k + s), nat (k + s) := b ! nat k]"

text \<open>\<open>n\<close> is among the neighbors generated for \<open>b\<close>: one legal slide leads from \<open>b\<close> to \<open>n\<close>.\<close>

definition slides_to :: "board \<Rightarrow> board \<Rightarrow> bool" where
  "slides_to b n = (case generate_all_neighbor_boards b of Inl e \<Rightarrow> False | Inr ns \<Rightarrow> n \<in> set ns)"

text \<open>
  What holds of the three lists and the counter each time the loop condition is tested,
  whatever the start board: the registry is not empty and holds pairwise different
  boards; entry 0 has no parent and every later entry has a parent with a smaller index
  that is no longer in the frontier; the frontier holds different indices of the
  registry; every registry entry is either in the frontier or was counted as expanded.
\<close>

definition registry_inv :: "search_state \<Rightarrow> bool" where
  "registry_inv st \<longleftrightarrow>
     list_of_all_boards st \<noteq> [] \<and>
     distinct (list_of_all_boards st) \<and>
     length (parent_index st) = length (list_of_all_boards st) \<and>
     parent_index st ! 0 = - 1 \<and>
     (\<forall>i. 0 < i \<and> i < length (list_of_all_boards st) \<longrightarrow>
        0 \<le> parent_index st ! i \<and> parent_index st ! i < int i \<and>
        parent_index st ! i \<notin> set (frontier_indices st)) \<and>
     (\<forall>f\<in>set (frontier_indices st). 0 \<le> f \<and> f < int (length (list_of_all_boards st))) \<and>
     distinct (frontier_indices st) \<and>
     0 \<le> number_of_expanded_boards st \<and>
     number_of_expanded_boards st + int (length (frontier_indices st))
       = int (length (list_of_all_boards st))"

text \<open>
  What holds in addition when the start board is valid: the registry starts with the
  start board and holds valid boards, and one slide leads from a parent to its child.
\<close>

definition search_inv :: "board \<Rightarrow> search_state \<Rightarrow> bool" where
  "search_inv start st \<longleftrightarrow>
     registry_inv st \<and>
     list_of_all_boards st ! 0 = start \<and>
     (\<forall>b\<in>set (list_of_all_boards st). valid_board b) \<and>
     (\<forall>i. 0 < i \<and> i < length (list_of_all_boards st) \<longrightarrow>
        slides_to (list_of_all_boards st ! nat (parent_index st ! i)) (list_of_all_boards st ! i))"

text \<open>What a returned path satisfies, given the start board and the returned count.\<close>

definition found_path :: "board \<Rightarrow> int \<Rightarrow> board list \<Rightarrow> bool" where
  "found_path start expanded path \<longleftrightarrow>
     path \<noteq> [] \<and> hd path = start \<and> last path = GOAL_BOARD \<and>
     successively slides_to path \<and> distinct path \<and> int (length path) \<le> expanded"

section \<open>List operations within bounds\<close>

lemma py_get_int: "0 \<le> i \<Longrightarrow> i < int (length xs) \<Longrightarrow> py_get xs i = Inr (xs ! nat i)"
  by (simp add: py_get_def py_in_range_def py_norm_def)

lemma py_set_int: "0 \<le> i \<Longrightarrow> i < int (length xs) \<Longrightarrow> py_set xs i v = Inr (xs[nat i := v])"
  by (simp add: py_set_def py_in_range_def py_norm_def)

lemma py_range_16:
  "py_range 0 16 = [0, 1, 2, 3, 4, 5, 6, 7, 8, 9, 10, 11, 12, 13, 14, 15]"
  by code_simp

lemma in_py_range: "x \<in> set (py_range lo hi) \<longleftrightarrow> int lo \<le> x \<and> x < int hi"
proof
  assume "x \<in> set (py_range lo hi)"
  then show "int lo \<le> x \<and> x < int hi" by (auto simp: py_range_def)
next
  assume "int lo \<le> x \<and> x < int hi"
  then have "nat x \<in> set [lo..<hi]" and "x = int (nat x)" by auto
  then show "x \<in> set (py_range lo hi)" unfolding py_range_def by (metis image_eqI set_map)
qed

lemma valid_board_mset: "valid_board b \<longleftrightarrow> mset b = mset (py_range 0 16)"
proof
  assume "valid_board b"
  then have "mset (sort b) = mset (py_range 0 16)" by (simp add: valid_board_def)
  then show "mset b = mset (py_range 0 16)" by simp
next
  assume m: "mset b = mset (py_range 0 16)"
  have "sorted (py_range 0 16)" by (simp add: py_range_16)
  with m have "sort b = py_range 0 16" by (simp add: properties_for_sort)
  moreover from m have "size (mset b) = size (mset (py_range 0 16))" by simp
  then have "length b = 16" by (simp add: py_range_def)
  ultimately show "valid_board b" by (simp add: valid_board_def)
qed

lemma valid_board_length: "valid_board b \<Longrightarrow> length b = 16"
  by (simp add: valid_board_def)

lemma valid_board_set: "valid_board b \<Longrightarrow> x \<in> set b \<longleftrightarrow> 0 \<le> x \<and> x < 16"
proof -
  assume "valid_board b"
  then have "set_mset (mset b) = set_mset (mset (py_range 0 16))" by (simp add: valid_board_mset)
  then have "set b = set (py_range 0 16)" by simp
  then show ?thesis by (simp add: in_py_range)
qed

lemma valid_board_distinct: "valid_board b \<Longrightarrow> distinct b"
proof -
  assume "valid_board b"
  then have m: "mset b = mset (py_range 0 16)" by (simp add: valid_board_mset)
  have "distinct (py_range 0 16)" by (simp add: py_range_def distinct_map)
  with m show ?thesis by (metis mset_eq_imp_distinct_iff)
qed

lemma valid_board_GOAL: "valid_board GOAL_BOARD"
  by code_simp

section \<open>The heuristic\<close>

lemma manhattan_loop_sum:
  "\<forall>p\<in>set ps. 0 \<le> p \<and> p < int (length b) \<Longrightarrow>
   manhattan_loop b ps t = Inr (t + sum_list (map (cell_cost b) ps))"
  by (induction ps arbitrary: t) (auto simp: py_get_int cell_cost_def)

lemma tile_distance_nonneg: "0 \<le> tile_distance p v"
  by (simp add: tile_distance_def Let_def)

lemma abs_sum_zero: "\<bar>a - b\<bar> + \<bar>c - d\<bar> = 0 \<longleftrightarrow> a = b \<and> c = d" for a b c d :: int
  by linarith

lemma div_mod_4_eq: "p div 4 = q div 4 \<Longrightarrow> p mod 4 = q mod 4 \<Longrightarrow> p = q" for p q :: int
  by (metis div_mult_mod_eq)

lemma tile_distance_zero: "tile_distance p v = 0 \<longleftrightarrow> v = p + 1"
proof -
  have "tile_distance p v = 0 \<longleftrightarrow> p div 4 = (v - 1) div 4 \<and> p mod 4 = (v - 1) mod 4"
    unfolding tile_distance_def Let_def by (rule abs_sum_zero)
  also have "\<dots> \<longleftrightarrow> p = v - 1"
    using div_mod_4_eq by blast
  finally show ?thesis by auto
qed

lemma cell_cost_nonneg: "0 \<le> cell_cost b p"
  by (simp add: cell_cost_def tile_distance_nonneg)

lemma GOAL_BOARD_map: "GOAL_BOARD = map (\<lambda>i. if i = 15 then 0 else int i + 1) [0..<16]"
  by code_simp

lemma GOAL_BOARD_nth: "i < 16 \<Longrightarrow> GOAL_BOARD ! i = (if i = 15 then 0 else int i + 1)"
  by (simp only: GOAL_BOARD_map) simp

lemma compute_manhattan_total_sum:
  "valid_board b \<Longrightarrow>
   compute_manhattan_total b = Inr (sum_list (map (cell_cost b) (py_range 0 16)))"
  using manhattan_loop_sum[of "py_range 0 16" b 0]
  by (simp add: compute_manhattan_total_def in_py_range valid_board_length)

lemma manhattan_sum_nonneg: "0 \<le> sum_list (map (cell_cost b) ps)"
  by (rule sum_list_nonneg) (auto simp: cell_cost_nonneg)

lemma manhattan_sum_zero_iff:
  assumes v: "valid_board b"
  shows "sum_list (map (cell_cost b) (py_range 0 16)) = 0 \<longleftrightarrow> b = GOAL_BOARD"
proof -
  have len: "length b = 16" using v by (rule valid_board_length)
  have "sum_list (map (cell_cost b) (py_range 0 16)) = 0
        \<longleftrightarrow> (\<forall>x\<in>set (map (cell_cost b) (py_range 0 16)). x = 0)"
    by (rule sum_list_nonneg_eq_0_iff) (auto simp: cell_cost_nonneg)
  also have "\<dots> \<longleftrightarrow> (\<forall>i<16. cell_cost b (int i) = 0)"
    by (auto simp: py_range_def)
  also have "\<dots> \<longleftrightarrow> (\<forall>i<16. b ! i = 0 \<or> b ! i = int i + 1)"
    by (auto simp: cell_cost_def tile_distance_zero)
  also have "\<dots> \<longleftrightarrow> b = GOAL_BOARD"
  proof
    assume H: "\<forall>i<16. b ! i = 0 \<or> b ! i = int i + 1"
    have "b ! 15 \<in> set b" using len by simp
    then have "b ! 15 < 16" using v by (simp add: valid_board_set)
    moreover from H[rule_format, of 15] have "b ! 15 = 0 \<or> b ! 15 = int 15 + 1" by simp
    ultimately have last0: "b ! 15 = 0" by simp
    have "b ! i = GOAL_BOARD ! i" if i: "i < 16" for i
    proof (cases "i = 15")
      case True
      then show ?thesis using last0 by (simp add: GOAL_BOARD_nth)
    next
      case False
      then have "b ! i \<noteq> b ! 15"
        using valid_board_distinct[OF v] i len by (simp add: nth_eq_iff_index_eq)
      with H i last0 have "b ! i = int i + 1" by auto
      then show ?thesis using i False by (simp add: GOAL_BOARD_nth)
    qed
    moreover have "length GOAL_BOARD = 16" by (simp add: GOAL_BOARD_def)
    ultimately show "b = GOAL_BOARD" using len by (simp add: list_eq_iff_nth_eq)
  next
    assume "b = GOAL_BOARD"
    then show "\<forall>i<16. b ! i = 0 \<or> b ! i = int i + 1" by (simp add: GOAL_BOARD_nth)
  qed
  finally show ?thesis .
qed

text \<open>
  C2: for every valid board, \<open>compute_manhattan_total\<close> returns a total that is at least 0,
  and the total is 0 exactly when the board is the Goal Board.
\<close>

theorem manhattan_total_zero_iff_goal:
  assumes "valid_board board"
  shows "\<exists>total_distance. compute_manhattan_total board = Inr total_distance \<and>
           0 \<le> total_distance \<and> (total_distance = 0 \<longleftrightarrow> board = GOAL_BOARD)"
  using assms
  by (simp add: compute_manhattan_total_sum manhattan_sum_nonneg manhattan_sum_zero_iff)

theorem manhattan_total_zero_iff_goal_witness:
  "valid_board [1, 2, 3, 4, 5, 6, 7, 8, 9, 10, 11, 12, 13, 0, 14, 15] \<and>
   (\<exists>total_distance.
      compute_manhattan_total [1, 2, 3, 4, 5, 6, 7, 8, 9, 10, 11, 12, 13, 0, 14, 15]
        = Inr total_distance \<and>
      0 \<le> total_distance \<and>
      (total_distance = 0 \<longleftrightarrow> [1, 2, 3, 4, 5, 6, 7, 8, 9, 10, 11, 12, 13, 0, 14, 15] = GOAL_BOARD))"
proof (rule conjI)
  show v: "valid_board [1, 2, 3, 4, 5, 6, 7, 8, 9, 10, 11, 12, 13, 0, 14, 15]"
    by code_simp
  show "\<exists>total_distance.
      compute_manhattan_total [1, 2, 3, 4, 5, 6, 7, 8, 9, 10, 11, 12, 13, 0, 14, 15]
        = Inr total_distance \<and>
      0 \<le> total_distance \<and>
      (total_distance = 0 \<longleftrightarrow> [1, 2, 3, 4, 5, 6, 7, 8, 9, 10, 11, 12, 13, 0, 14, 15] = GOAL_BOARD)"
    by (rule manhattan_total_zero_iff_goal[OF v])
qed

section \<open>The neighbors of a valid board\<close>

lemma py_index_from_found:
  "v \<in> set xs \<Longrightarrow> \<exists>k<length xs. py_index_from xs v i = Inr (i + int k) \<and> xs ! k = v"
proof (induction xs arbitrary: i)
  case Nil
  then show ?case by simp
next
  case (Cons x xs)
  show ?case
  proof (cases "x = v")
    case True
    then show ?thesis by (intro exI[of _ 0]) simp
  next
    case False
    with Cons.prems have "v \<in> set xs" by simp
    from Cons.IH[OF this, of "i + 1"] obtain k where
      "k < length xs" "py_index_from xs v (i + 1) = Inr (i + 1 + int k)" "xs ! k = v" by blast
    with False show ?thesis by (intro exI[of _ "Suc k"]) simp
  qed
qed

lemma swap_empty_exchanged:
  "0 \<le> k \<Longrightarrow> k < int (length b) \<Longrightarrow> 0 \<le> k + s \<Longrightarrow> k + s < int (length b) \<Longrightarrow>
   swap_empty b k s = Inr (exchanged b k s)"
  by (simp add: swap_empty_def exchanged_def py_get_int py_set_int Let_def)

lemma neighbors_loop_map:
  "0 \<le> k \<Longrightarrow> k < int (length b) \<Longrightarrow> \<forall>s\<in>set ss. 0 \<le> k + s \<and> k + s < int (length b) \<Longrightarrow>
   neighbors_loop b k ss acc = Inr (acc @ map (exchanged b k) ss)"
  by (induction ss arbitrary: acc) (simp_all add: swap_empty_exchanged)

lemma possible_shifts_table:
  "list_all (\<lambda>k. list_all (\<lambda>s. 0 \<le> k + s \<and> k + s < 16 \<and> s \<noteq> 0 \<and> - s \<in> set (possible_shifts (k + s)))
       (possible_shifts k) \<and>
     2 \<le> length (possible_shifts k) \<and> length (possible_shifts k) \<le> 4 \<and>
     (length (possible_shifts k) = 2 \<longleftrightarrow> k \<in> set [0, 3, 12, 15]))
   (py_range 0 16)"
  by code_simp

lemma possible_shifts_step:
  "0 \<le> k \<Longrightarrow> k < 16 \<Longrightarrow> s \<in> set (possible_shifts k) \<Longrightarrow>
   0 \<le> k + s \<and> k + s < 16 \<and> s \<noteq> 0 \<and> - s \<in> set (possible_shifts (k + s))"
  using possible_shifts_table by (simp add: list_all_iff in_py_range)

lemma possible_shifts_length:
  "0 \<le> k \<Longrightarrow> k < 16 \<Longrightarrow>
   2 \<le> length (possible_shifts k) \<and> length (possible_shifts k) \<le> 4 \<and>
   (length (possible_shifts k) = 2 \<longleftrightarrow> k \<in> set [0, 3, 12, 15])"
  using possible_shifts_table by (simp add: list_all_iff in_py_range)

lemma generate_valid:
  assumes v: "valid_board b"
  obtains k where "0 \<le> k" "k < 16" "b ! nat k = 0"
    "generate_all_neighbor_boards b = Inr (map (exchanged b k) (possible_shifts k))"
proof -
  have len: "length b = 16" using v by (rule valid_board_length)
  have "0 \<in> set b" using v by (simp add: valid_board_set)
  from py_index_from_found[OF this, of 0] obtain j where
    j: "j < length b" "py_index_from b 0 0 = Inr (int j)" "b ! j = 0" by auto
  have range: "\<forall>s\<in>set (possible_shifts (int j)). 0 \<le> int j + s \<and> int j + s < int (length b)"
    using possible_shifts_step[of "int j"] j(1) len by simp
  have "generate_all_neighbor_boards b = Inr (map (exchanged b (int j)) (possible_shifts (int j)))"
    using neighbors_loop_map[OF _ _ range, of "[]"] j
    by (simp add: generate_all_neighbor_boards_def py_index_def)
  with j len show ?thesis by (intro that[of "int j"]) simp_all
qed

lemma exchanged_valid:
  assumes v: "valid_board b" and k: "0 \<le> k" "k < 16" and s: "0 \<le> k + s" "k + s < 16"
  shows "valid_board (exchanged b k s)"
proof -
  have len: "length b = 16" using v by (rule valid_board_length)
  have "mset (exchanged b k s) = mset b"
    unfolding exchanged_def using k s len by (intro mset_swap) simp_all
  with v show ?thesis by (simp add: valid_board_mset)
qed

lemma neighbor_valid:
  assumes v: "valid_board b" and g: "generate_all_neighbor_boards b = Inr ns" and n: "n \<in> set ns"
  shows "valid_board n"
proof -
  from v obtain k where k: "0 \<le> k" "k < 16"
    and gen: "generate_all_neighbor_boards b = Inr (map (exchanged b k) (possible_shifts k))"
    by (rule generate_valid)
  from g gen n obtain s where s: "s \<in> set (possible_shifts k)" and ns: "n = exchanged b k s" by auto
  from possible_shifts_step[OF k s] have "0 \<le> k + s" "k + s < 16" by simp_all
  with v k show ?thesis unfolding ns by (intro exchanged_valid)
qed

lemma neighbor_count:
  assumes v: "valid_board b"
  shows "\<exists>ns. generate_all_neighbor_boards b = Inr ns \<and> 2 \<le> length ns \<and> length ns \<le> 4
           \<and> (length ns = 2 \<longleftrightarrow> b ! 0 = 0 \<or> b ! 3 = 0 \<or> b ! 12 = 0 \<or> b ! 15 = 0)"
proof -
  have len: "length b = 16" using v by (rule valid_board_length)
  from v obtain k where k: "0 \<le> k" "k < 16" and z: "b ! nat k = 0"
    and gen: "generate_all_neighbor_boards b = Inr (map (exchanged b k) (possible_shifts k))"
    by (rule generate_valid)
  have uniq: "b ! i = 0 \<longleftrightarrow> i = nat k" if "i < 16" for i
    using valid_board_distinct[OF v] that k z len
    by (metis nat_less_iff nth_eq_iff_index_eq of_nat_numeral)
  have "k \<in> set [0, 3, 12, 15] \<longleftrightarrow> b ! 0 = 0 \<or> b ! 3 = 0 \<or> b ! 12 = 0 \<or> b ! 15 = 0"
    using k by (auto simp: uniq)
  with possible_shifts_length[OF k] gen show ?thesis by simp
qed

lemma neighbor_inverse:
  assumes v: "valid_board b" and g: "generate_all_neighbor_boards b = Inr ns" and n: "n \<in> set ns"
  shows "\<exists>ms. generate_all_neighbor_boards n = Inr ms \<and> b \<in> set ms"
proof -
  have len: "length b = 16" using v by (rule valid_board_length)
  from v obtain k where k: "0 \<le> k" "k < 16" and z: "b ! nat k = 0"
    and gen: "generate_all_neighbor_boards b = Inr (map (exchanged b k) (possible_shifts k))"
    by (rule generate_valid)
  from g gen n obtain s where s: "s \<in> set (possible_shifts k)" and ns: "n = exchanged b k s" by auto
  from possible_shifts_step[OF k s]
  have ks: "0 \<le> k + s" "k + s < 16" "s \<noteq> 0" and rev_s: "- s \<in> set (possible_shifts (k + s))"
    by simp_all
  have vn: "valid_board n" using v g n by (rule neighbor_valid)
  then have lenn: "length n = 16" by (rule valid_board_length)
  from vn obtain k' where k': "0 \<le> k'" "k' < 16" and z': "n ! nat k' = 0"
    and gen': "generate_all_neighbor_boards n = Inr (map (exchanged n k') (possible_shifts k'))"
    by (rule generate_valid)
  have neq: "nat k \<noteq> nat (k + s)" using k ks by simp
  have "n ! nat (k + s) = 0" unfolding ns exchanged_def using z ks len by simp
  moreover have "nat k' < length n" "nat (k + s) < length n" using k' ks lenn by simp_all
  ultimately have "nat k' = nat (k + s)"
    using valid_board_distinct[OF vn] z' by (metis nth_eq_iff_index_eq)
  with k' ks have k'_eq: "k' = k + s" by simp
  have "exchanged n (k + s) (- s) = b"
    unfolding ns exchanged_def using neq k ks len
    by (simp add: list_eq_iff_nth_eq nth_list_update)
  with rev_s have "b \<in> set (map (exchanged n k') (possible_shifts k'))"
    unfolding k'_eq by force
  with gen' show ?thesis by simp
qed

text \<open>
  C6: for every valid board, \<open>generate_all_neighbor_boards\<close> returns at least 1 and at most
  4 boards, and never fewer than 2; it returns exactly 2 when the blank is at a corner
  (and only then).
\<close>

theorem neighbor_count_between_2_and_4:
  assumes "valid_board board"
  shows "\<exists>list_of_neighbors.
           generate_all_neighbor_boards board = Inr list_of_neighbors \<and>
           1 \<le> length list_of_neighbors \<and> 2 \<le> length list_of_neighbors \<and>
           length list_of_neighbors \<le> 4 \<and>
           (length list_of_neighbors = 2 \<longleftrightarrow>
              board ! 0 = 0 \<or> board ! 3 = 0 \<or> board ! 12 = 0 \<or> board ! 15 = 0)"
proof -
  from neighbor_count[OF assms] obtain ns where
    "generate_all_neighbor_boards board = Inr ns" "2 \<le> length ns" "length ns \<le> 4"
    "length ns = 2 \<longleftrightarrow> board ! 0 = 0 \<or> board ! 3 = 0 \<or> board ! 12 = 0 \<or> board ! 15 = 0"
    by blast
  then show ?thesis by (intro exI[of _ ns]) simp
qed

theorem neighbor_count_between_2_and_4_witness:
  "valid_board GOAL_BOARD \<and>
   (\<exists>list_of_neighbors.
      generate_all_neighbor_boards GOAL_BOARD = Inr list_of_neighbors \<and>
      1 \<le> length list_of_neighbors \<and> 2 \<le> length list_of_neighbors \<and>
      length list_of_neighbors \<le> 4 \<and>
      (length list_of_neighbors = 2 \<longleftrightarrow>
         GOAL_BOARD ! 0 = 0 \<or> GOAL_BOARD ! 3 = 0 \<or> GOAL_BOARD ! 12 = 0 \<or> GOAL_BOARD ! 15 = 0))"
  using valid_board_GOAL neighbor_count_between_2_and_4[OF valid_board_GOAL]
  by (rule conjI)

text \<open>
  C7: every board that \<open>generate_all_neighbor_boards\<close> produces for a valid board is a
  valid board, and so is every board reached from a valid board by any number of slides.
\<close>

theorem neighbors_are_valid_boards:
  assumes "valid_board board"
  shows "(\<forall>list_of_neighbors new_board.
            generate_all_neighbor_boards board = Inr list_of_neighbors \<longrightarrow>
            new_board \<in> set list_of_neighbors \<longrightarrow> valid_board new_board) \<and>
         (\<forall>reached. slides_to\<^sup>*\<^sup>* board reached \<longrightarrow> valid_board reached)"
proof (intro conjI allI impI)
  fix ns n
  assume "generate_all_neighbor_boards board = Inr ns" "n \<in> set ns"
  with assms show "valid_board n" by (rule neighbor_valid)
next
  fix reached
  assume "slides_to\<^sup>*\<^sup>* board reached"
  then show "valid_board reached"
  proof (induction rule: rtranclp_induct)
    case base
    show ?case by (rule assms)
  next
    case (step y z)
    from step.hyps(2) obtain ns where
      "generate_all_neighbor_boards y = Inr ns" "z \<in> set ns"
      by (auto simp: slides_to_def split: sum.splits)
    with step.IH show ?case by (rule neighbor_valid)
  qed
qed

theorem neighbors_are_valid_boards_witness:
  "valid_board GOAL_BOARD \<and>
   generate_all_neighbor_boards GOAL_BOARD
     = Inr [[1, 2, 3, 4, 5, 6, 7, 8, 9, 10, 11, 0, 13, 14, 15, 12],
            [1, 2, 3, 4, 5, 6, 7, 8, 9, 10, 11, 12, 13, 14, 0, 15]] \<and>
   valid_board [1, 2, 3, 4, 5, 6, 7, 8, 9, 10, 11, 0, 13, 14, 15, 12]"
proof -
  have g: "generate_all_neighbor_boards GOAL_BOARD
     = Inr [[1, 2, 3, 4, 5, 6, 7, 8, 9, 10, 11, 0, 13, 14, 15, 12],
            [1, 2, 3, 4, 5, 6, 7, 8, 9, 10, 11, 12, 13, 14, 0, 15]]"
    by code_simp
  have m: "[1, 2, 3, 4, 5, 6, 7, 8, 9, 10, 11, 0, 13, 14, 15, 12]
     \<in> set [[1, 2, 3, 4, 5, 6, 7, 8, 9, 10, 11, 0, 13, 14, 15, 12],
            [1, 2, 3, 4, 5, 6, 7, 8, 9, 10, 11, 12, 13, 14, 0, 15 :: int]]"
    by simp
  from neighbors_are_valid_boards[OF valid_board_GOAL, THEN conjunct1, rule_format, OF g m]
  show ?thesis using valid_board_GOAL g by (intro conjI)
qed

text \<open>
  C8: for every valid board \<open>b\<close> and every board \<open>n\<close> that \<open>generate_all_neighbor_boards\<close>
  produces for \<open>b\<close>, the board \<open>b\<close> is among the boards produced for \<open>n\<close>.
\<close>

theorem neighbor_of_neighbor_is_original:
  assumes "valid_board b"
    and "generate_all_neighbor_boards b = Inr list_of_neighbors"
    and "n \<in> set list_of_neighbors"
  shows "\<exists>again. generate_all_neighbor_boards n = Inr again \<and> b \<in> set again"
  using assms by (rule neighbor_inverse)

theorem neighbor_of_neighbor_is_original_witness:
  "valid_board GOAL_BOARD \<and>
   generate_all_neighbor_boards GOAL_BOARD
     = Inr [[1, 2, 3, 4, 5, 6, 7, 8, 9, 10, 11, 0, 13, 14, 15, 12],
            [1, 2, 3, 4, 5, 6, 7, 8, 9, 10, 11, 12, 13, 14, 0, 15]] \<and>
   (\<exists>again. generate_all_neighbor_boards [1, 2, 3, 4, 5, 6, 7, 8, 9, 10, 11, 12, 13, 14, 0, 15]
             = Inr again \<and> GOAL_BOARD \<in> set again)"
proof -
  have g: "generate_all_neighbor_boards GOAL_BOARD
     = Inr [[1, 2, 3, 4, 5, 6, 7, 8, 9, 10, 11, 0, 13, 14, 15, 12],
            [1, 2, 3, 4, 5, 6, 7, 8, 9, 10, 11, 12, 13, 14, 0, 15]]"
    by code_simp
  have m: "[1, 2, 3, 4, 5, 6, 7, 8, 9, 10, 11, 12, 13, 14, 0, 15]
     \<in> set [[1, 2, 3, 4, 5, 6, 7, 8, 9, 10, 11, 0, 13, 14, 15, 12],
            [1, 2, 3, 4, 5, 6, 7, 8, 9, 10, 11, 12, 13, 14, 0, 15 :: int]]"
    by simp
  from neighbor_of_neighbor_is_original[OF valid_board_GOAL g m]
  show ?thesis using valid_board_GOAL g by (intro conjI)
qed

section \<open>The search\<close>

subsection \<open>The helper functions on valid boards\<close>

lemma boards_are_equal_loop_all:
  "\<forall>p\<in>set ps. 0 \<le> p \<and> p < int (length a) \<and> p < int (length b) \<Longrightarrow>
   boards_are_equal_loop a b ps = Inr (\<forall>p\<in>set ps. a ! nat p = b ! nat p)"
  by (induction ps) (auto simp: py_get_int)

lemma boards_are_equal_eq:
  assumes "length a = 16" "length b = 16"
  shows "boards_are_equal a b = Inr (a = b)"
proof -
  have "(\<forall>p\<in>set (py_range 0 16). a ! nat p = b ! nat p) \<longleftrightarrow> (\<forall>i<16. a ! i = b ! i)"
    by (auto simp: py_range_def)
  also have "\<dots> \<longleftrightarrow> a = b" using assms by (simp add: list_eq_iff_nth_eq)
  finally show ?thesis
    using boards_are_equal_loop_all[of "py_range 0 16" a b] assms
    by (simp add: boards_are_equal_def in_py_range)
qed

lemma find_board_index_loop_res:
  assumes "\<forall>c\<in>set bs. length c = 16" "length board = 16"
  shows "\<forall>p\<in>set ps. 0 \<le> p \<and> p < int (length bs) \<Longrightarrow>
   \<exists>r. find_board_index_loop bs board ps = Inr r \<and>
       (r = - 1 \<longleftrightarrow> (\<forall>p\<in>set ps. bs ! nat p \<noteq> board))"
proof (induction ps)
  case Nil
  then show ?case by simp
next
  case (Cons p ps)
  then have p: "0 \<le> p" "p < int (length bs)" by simp_all
  then have "length (bs ! nat p) = 16" using assms(1) by simp
  then have eq: "boards_are_equal (bs ! nat p) board = Inr (bs ! nat p = board)"
    using assms(2) by (rule boards_are_equal_eq)
  from Cons show ?case using p eq by (auto simp: py_get_int)
qed

lemma find_board_index_res:
  assumes "\<forall>c\<in>set bs. length c = 16" "length board = 16"
  shows "\<exists>r. find_board_index bs board = Inr r \<and> (r = - 1 \<longleftrightarrow> board \<notin> set bs)"
proof -
  have "(\<forall>p\<in>set (py_range 0 (length bs)). bs ! nat p \<noteq> board) \<longleftrightarrow> board \<notin> set bs"
    by (auto simp: py_range_def in_set_conv_nth)
  then show ?thesis
    using find_board_index_loop_res[OF assms, of "py_range 0 (length bs)"]
    by (simp add: find_board_index_def in_py_range)
qed

lemma compute_manhattan_total_valid:
  "valid_board b \<Longrightarrow> \<exists>t. compute_manhattan_total b = Inr t"
  by (simp add: compute_manhattan_total_sum)

lemma select_loop_res:
  assumes bs: "\<forall>b\<in>set bs. valid_board b"
    and fr: "\<forall>f\<in>set fr. 0 \<le> f \<and> f < int (length bs)"
  shows "\<forall>p\<in>set ps. 0 \<le> p \<and> p < int (length fr) \<Longrightarrow>
    0 \<le> bp \<Longrightarrow> bp < int (length fr) \<Longrightarrow> fr ! nat bp = bi \<Longrightarrow>
    \<exists>sc' bi' bp'. select_loop bs fr ps (sc, bi, bp) = Inr (sc', bi', bp') \<and>
       0 \<le> bp' \<and> bp' < int (length fr) \<and> fr ! nat bp' = bi'"
proof (induction ps arbitrary: sc bi bp)
  case Nil
  then show ?case by simp
next
  case (Cons p ps)
  then have p: "0 \<le> p" "p < int (length fr)" by simp_all
  then have "fr ! nat p \<in> set fr" by simp
  with fr have f: "0 \<le> fr ! nat p" "fr ! nat p < int (length bs)" by simp_all
  then have "bs ! nat (fr ! nat p) \<in> set bs" by simp
  with bs have "valid_board (bs ! nat (fr ! nat p))" by simp
  then obtain t where t: "compute_manhattan_total (bs ! nat (fr ! nat p)) = Inr t"
    using compute_manhattan_total_valid by blast
  show ?case
  proof (cases "t < sc")
    case True
    from Cons.IH[of p "fr ! nat p" t] Cons.prems(1) p
    show ?thesis using True t f by (simp add: py_get_int)
  next
    case False
    from Cons.IH[of bp bi sc] Cons.prems
    show ?thesis using False t f p by (simp add: py_get_int)
  qed
qed

lemma select_best_res:
  assumes bs: "\<forall>b\<in>set bs. valid_board b"
    and fr: "\<forall>f\<in>set fr. 0 \<le> f \<and> f < int (length bs)"
    and ne: "fr \<noteq> []"
  shows "\<exists>sc bi bp. select_best bs fr = Inr (sc, bi, bp) \<and>
       0 \<le> bp \<and> bp < int (length fr) \<and> fr ! nat bp = bi"
proof -
  from ne have l: "0 < length fr" by simp
  then have "fr ! 0 \<in> set fr" by simp
  with fr have f: "0 \<le> fr ! 0" "fr ! 0 < int (length bs)" by simp_all
  then have "bs ! nat (fr ! 0) \<in> set bs" by simp
  with bs have "valid_board (bs ! nat (fr ! 0))" by simp
  then obtain t where t: "compute_manhattan_total (bs ! nat (fr ! 0)) = Inr t"
    using compute_manhattan_total_valid by blast
  from select_loop_res[OF bs fr, of "py_range 1 (length fr)" 0 "fr ! 0" t] l
  show ?thesis using t f by (simp add: select_best_def py_get_int in_py_range)
qed

lemma py_pop_int:
  "0 \<le> p \<Longrightarrow> p < int (length xs) \<Longrightarrow>
   py_pop xs p = Inr (take (nat p) xs @ drop (Suc (nat p)) xs)"
  by (simp add: py_pop_def py_in_range_def py_norm_def)

lemma pop_facts:
  assumes "i < length xs" "distinct xs"
  shows "distinct (take i xs @ drop (Suc i) xs)"
    and "xs ! i \<notin> set (take i xs @ drop (Suc i) xs)"
    and "set (take i xs @ drop (Suc i) xs) \<subseteq> set xs"
    and "Suc (length (take i xs @ drop (Suc i) xs)) = length xs"
proof -
  from assms(1) have split: "xs = take i xs @ xs ! i # drop (Suc i) xs"
    by (rule id_take_nth_drop)
  from assms(2) have d: "distinct (take i xs @ xs ! i # drop (Suc i) xs)"
    using split by simp
  from d show "distinct (take i xs @ drop (Suc i) xs)" by auto
  from d show "xs ! i \<notin> set (take i xs @ drop (Suc i) xs)" by auto
  show "set (take i xs @ drop (Suc i) xs) \<subseteq> set xs"
    by (metis Un_least set_append set_drop_subset set_take_subset)
  show "Suc (length (take i xs @ drop (Suc i) xs)) = length xs"
    using assms(1) by simp
qed

lemma collect_boards_map:
  "\<forall>i\<in>set idxs. 0 \<le> i \<and> i < int (length bs) \<Longrightarrow>
   collect_boards bs idxs acc = Inr (acc @ map (\<lambda>i. bs ! nat i) idxs)"
  by (induction idxs arbitrary: acc) (simp_all add: py_get_int)

subsection \<open>What the helper functions returned, on any boards\<close>

lemma py_get_Inr:
  "py_get xs i = Inr v \<Longrightarrow> 0 \<le> i \<Longrightarrow> i < int (length xs) \<and> v = xs ! nat i"
  by (auto simp: py_get_def py_in_range_def py_norm_def split: if_splits)

lemma boards_are_equal_loop_False: "boards_are_equal_loop a b ps = Inr False \<Longrightarrow> a \<noteq> b"
  by (induction ps) (auto split: sum.splits if_splits)

lemma boards_are_equal_False: "boards_are_equal a b = Inr False \<Longrightarrow> a \<noteq> b"
  unfolding boards_are_equal_def by (rule boards_are_equal_loop_False)

lemma find_board_index_loop_absent:
  "\<forall>p\<in>set ps. 0 \<le> p \<Longrightarrow> find_board_index_loop bs nb ps = Inr (- 1) \<Longrightarrow>
   \<forall>p\<in>set ps. p < int (length bs) \<and> bs ! nat p \<noteq> nb"
proof (induction ps)
  case Nil
  then show ?case by simp
next
  case (Cons p ps)
  from Cons.prems(1) have p0: "0 \<le> p" by simp
  from Cons.prems(2) obtain c same where
    g: "py_get bs p = Inr c" and e: "boards_are_equal c nb = Inr same"
    and r: "(if same then Inr p else find_board_index_loop bs nb ps) = Inr (- 1)"
    by (auto split: sum.splits)
  from py_get_Inr[OF g p0] have c: "p < int (length bs)" "c = bs ! nat p" by simp_all
  from r p0 have ns: "\<not> same" and rest: "find_board_index_loop bs nb ps = Inr (- 1)"
    by (auto split: if_splits)
  from e ns have "c \<noteq> nb" by (simp add: boards_are_equal_False)
  moreover from Cons.IH[OF _ rest] Cons.prems(1)
  have "\<forall>p\<in>set ps. p < int (length bs) \<and> bs ! nat p \<noteq> nb" by simp
  ultimately show ?case using c by simp
qed

lemma find_board_index_absent:
  assumes "find_board_index bs nb = Inr (- 1)"
  shows "nb \<notin> set bs"
proof
  assume "nb \<in> set bs"
  then obtain i where i: "i < length bs" "bs ! i = nb" by (auto simp: in_set_conv_nth)
  have "\<forall>p\<in>set (py_range 0 (length bs)). 0 \<le> p" by (simp add: in_py_range)
  from find_board_index_loop_absent[OF this] assms
  have "\<forall>p\<in>set (py_range 0 (length bs)). bs ! nat p \<noteq> nb"
    by (simp add: find_board_index_def)
  moreover have "int i \<in> set (py_range 0 (length bs))" using i(1) by (simp add: in_py_range)
  ultimately have "bs ! nat (int i) \<noteq> nb" by blast
  with i(2) show False by simp
qed

lemma select_loop_position:
  "\<forall>p\<in>set ps. 0 \<le> p \<Longrightarrow> 0 \<le> bp \<Longrightarrow> bp < int (length fr) \<Longrightarrow> fr ! nat bp = bi \<Longrightarrow>
   select_loop bs fr ps (sc, bi, bp) = Inr (sc', bi', bp') \<Longrightarrow>
   0 \<le> bp' \<and> bp' < int (length fr) \<and> fr ! nat bp' = bi'"
proof (induction ps arbitrary: sc bi bp)
  case Nil
  then show ?case by simp
next
  case (Cons p ps)
  from Cons.prems(1) have p0: "0 \<le> p" and rest: "\<forall>p\<in>set ps. 0 \<le> p" by simp_all
  from Cons.prems(5) obtain ci cb cs where
    g: "py_get fr p = Inr ci"
    and r: "(if cs < sc then select_loop bs fr ps (cs, ci, p)
             else select_loop bs fr ps (sc, bi, bp)) = Inr (sc', bi', bp')"
    by (auto split: sum.splits)
  from py_get_Inr[OF g p0] have c: "p < int (length fr)" "fr ! nat p = ci" by simp_all
  show ?case
  proof (cases "cs < sc")
    case True
    with r have "select_loop bs fr ps (cs, ci, p) = Inr (sc', bi', bp')" by simp
    with rest p0 c show ?thesis by (rule Cons.IH)
  next
    case False
    with r have "select_loop bs fr ps (sc, bi, bp) = Inr (sc', bi', bp')" by simp
    with rest Cons.prems(2,3,4) show ?thesis by (rule Cons.IH)
  qed
qed

lemma select_best_position:
  assumes "select_best bs fr = Inr (sc, bi, bp)"
  shows "0 \<le> bp \<and> bp < int (length fr) \<and> fr ! nat bp = bi"
proof -
  from assms obtain b0 s0 where
    g: "py_get fr 0 = Inr b0"
    and r: "select_loop bs fr (py_range 1 (length fr)) (s0, b0, 0) = Inr (sc, bi, bp)"
    by (auto simp: select_best_def split: sum.splits)
  from py_get_Inr[OF g] have c: "0 < int (length fr)" "fr ! nat 0 = b0" by simp_all
  have "\<forall>p\<in>set (py_range 1 (length fr)). 0 \<le> p" by (simp add: in_py_range)
  then show ?thesis using _ c r by (rule select_loop_position) simp
qed

lemma py_pop_Inr:
  "py_pop xs p = Inr ys \<Longrightarrow> 0 \<le> p \<Longrightarrow> ys = take (nat p) xs @ drop (Suc (nat p)) xs"
  by (auto simp: py_pop_def py_in_range_def py_norm_def split: if_splits)

subsection \<open>The invariant of the main loop\<close>

lemma successively_nth:
  "successively P xs \<longleftrightarrow> (\<forall>i. Suc i < length xs \<longrightarrow> P (xs ! i) (xs ! Suc i))"
proof (induction P xs rule: successively.induct)
  case (3 P x y xs)
  show ?case
  proof
    assume a: "successively P (x # y # xs)"
    show "\<forall>i. Suc i < length (x # y # xs) \<longrightarrow> P ((x # y # xs) ! i) ((x # y # xs) ! Suc i)"
    proof (intro allI impI)
      fix i assume i: "Suc i < length (x # y # xs)"
      show "P ((x # y # xs) ! i) ((x # y # xs) ! Suc i)"
      proof (cases i)
        case 0
        with a show ?thesis by simp
      next
        case (Suc j)
        with a i 3 show ?thesis by simp
      qed
    qed
  next
    assume a: "\<forall>i. Suc i < length (x # y # xs) \<longrightarrow> P ((x # y # xs) ! i) ((x # y # xs) ! Suc i)"
    from a[rule_format, of 0] have "P x y" by simp
    moreover have "\<forall>i. Suc i < length (y # xs) \<longrightarrow> P ((y # xs) ! i) ((y # xs) ! Suc i)"
    proof (intro allI impI)
      fix i assume "Suc i < length (y # xs)"
      with a[rule_format, of "Suc i"] show "P ((y # xs) ! i) ((y # xs) ! Suc i)" by simp
    qed
    ultimately show "successively P (x # y # xs)" using 3 by simp
  qed
qed simp_all

lemma registry_inv_initial: "registry_inv (initial_state start)"
  by (auto simp: registry_inv_def initial_state_def)

lemma search_inv_initial: "valid_board start \<Longrightarrow> search_inv start (initial_state start)"
  using registry_inv_initial[of start] by (auto simp: search_inv_def initial_state_def)

lemma walk_parents_chain:
  assumes root: "ps ! 0 = - 1" and len: "0 < length ps"
    and par: "\<forall>i. 0 < i \<and> i < length ps \<longrightarrow>
                 0 \<le> ps ! i \<and> ps ! i < int i \<and> ps ! i \<notin> set fr"
  shows "i < length ps \<Longrightarrow>
    \<exists>chain. walk_parents ps (int i) acc = Some (Inr (acc @ int i # chain)) \<and>
       last (int i # chain) = 0 \<and>
       (\<forall>x\<in>set chain. 0 \<le> x \<and> x < int i \<and> x \<notin> set fr) \<and>
       distinct (int i # chain) \<and>
       successively (\<lambda>a b. 0 < a \<and> b = ps ! nat a) (int i # chain)"
proof (induction i arbitrary: acc rule: less_induct)
  case (less i)
  show ?case
  proof (cases "i = 0")
    case True
    have "walk_parents ps (- 1) (acc @ [0]) = Some (Inr (acc @ [0]))"
      by (subst walk_parents.simps) simp
    then have "walk_parents ps 0 acc = Some (Inr (acc @ [0]))"
      using len root by (subst walk_parents.simps) (simp add: py_in_range_def py_norm_def)
    then show ?thesis using True by (intro exI[of _ "[]"]) simp
  next
    case False
    with par less.prems have p: "0 \<le> ps ! i" "ps ! i < int i" "ps ! i \<notin> set fr" by auto
    then have lt: "nat (ps ! i) < i" by simp
    then have "nat (ps ! i) < length ps" using less.prems by simp
    from less.IH[OF lt this, of "acc @ [int i]"] p(1) obtain chain where
      w: "walk_parents ps (ps ! i) (acc @ [int i]) = Some (Inr ((acc @ [int i]) @ ps ! i # chain))"
      and l: "last (ps ! i # chain) = 0"
      and b: "\<forall>x\<in>set chain. 0 \<le> x \<and> x < ps ! i \<and> x \<notin> set fr"
      and d: "distinct (ps ! i # chain)"
      and s: "successively (\<lambda>a b. 0 < a \<and> b = ps ! nat a) (ps ! i # chain)"
      by auto
    have "walk_parents ps (int i) acc = walk_parents ps (ps ! i) (acc @ [int i])"
      using less.prems by (subst walk_parents.simps) (simp add: py_in_range_def py_norm_def)
    with w have "walk_parents ps (int i) acc = Some (Inr (acc @ int i # ps ! i # chain))"
      by simp
    moreover have "last (int i # ps ! i # chain) = 0" using l by simp
    moreover have "\<forall>x\<in>set (ps ! i # chain). 0 \<le> x \<and> x < int i \<and> x \<notin> set fr"
      using b p by auto
    moreover have "distinct (int i # ps ! i # chain)" using d b p by auto
    moreover have "successively (\<lambda>a b. 0 < a \<and> b = ps ! nat a) (int i # ps ! i # chain)"
      using s False by simp
    ultimately show ?thesis by (intro exI[of _ "ps ! i # chain"]) blast
  qed
qed

lemma registry_inv_append:
  assumes inv: "registry_inv st"
    and nb: "nb \<notin> set (list_of_all_boards st)"
    and best: "0 \<le> best" "best < int (length (list_of_all_boards st))"
      "best \<notin> set (frontier_indices st)"
  shows "registry_inv
    (st\<lparr>list_of_all_boards := list_of_all_boards st @ [nb],
        parent_index := parent_index st @ [best],
        frontier_indices := frontier_indices st @
          [int (length (list_of_all_boards st @ [nb])) - 1]\<rparr>)"
proof -
  let ?bs = "list_of_all_boards st" and ?ps = "parent_index st" and ?fr = "frontier_indices st"
  from inv have ne: "?bs \<noteq> []" and dis: "distinct ?bs"
    and lps: "length ?ps = length ?bs" and root: "?ps ! 0 = - 1"
    and par: "\<forall>i. 0 < i \<and> i < length ?bs \<longrightarrow>
        0 \<le> ?ps ! i \<and> ?ps ! i < int i \<and> ?ps ! i \<notin> set ?fr"
    and frr: "\<forall>f\<in>set ?fr. 0 \<le> f \<and> f < int (length ?bs)"
    and dfr: "distinct ?fr"
    and n0: "0 \<le> number_of_expanded_boards st"
    and cnt: "number_of_expanded_boards st + int (length ?fr) = int (length ?bs)"
    by (simp_all add: registry_inv_def)
  have l0: "0 < length ?bs" using ne by simp
  have a3: "distinct (?bs @ [nb])" using dis nb by simp
  have a4: "(?ps @ [best]) ! 0 = - 1" using root l0 lps by (simp add: nth_append)
  have a5: "0 \<le> (?ps @ [best]) ! i \<and> (?ps @ [best]) ! i < int i \<and>
        (?ps @ [best]) ! i \<notin> set (?fr @ [int (length ?bs)])"
    if i: "0 < i" "i < length (?bs @ [nb])" for i
  proof (cases "i < length ?bs")
    case True
    with par i(1) have "0 \<le> ?ps ! i" "?ps ! i < int i" "?ps ! i \<notin> set ?fr" by simp_all
    with True lps show ?thesis by (simp add: nth_append)
  next
    case False
    with i have "i = length ?bs" by simp
    with best lps show ?thesis by (simp add: nth_append)
  qed
  have a6: "\<forall>f\<in>set (?fr @ [int (length ?bs)]). 0 \<le> f \<and> f < int (length (?bs @ [nb]))"
    using frr by auto
  have a7: "distinct (?fr @ [int (length ?bs)])" using dfr frr by auto
  show ?thesis
    unfolding registry_inv_def using a3 a4 a5 a6 a7 lps n0 cnt by simp
qed

lemma search_inv_append:
  assumes inv: "search_inv start st"
    and nb: "valid_board nb" "nb \<notin> set (list_of_all_boards st)"
    and best: "0 \<le> best" "best < int (length (list_of_all_boards st))"
      "best \<notin> set (frontier_indices st)"
    and sl: "slides_to (list_of_all_boards st ! nat best) nb"
  shows "search_inv start
    (st\<lparr>list_of_all_boards := list_of_all_boards st @ [nb],
        parent_index := parent_index st @ [best],
        frontier_indices := frontier_indices st @
          [int (length (list_of_all_boards st @ [nb])) - 1]\<rparr>)"
proof -
  let ?bs = "list_of_all_boards st" and ?ps = "parent_index st"
  from inv have reg: "registry_inv st" and st0: "?bs ! 0 = start"
    and val: "\<forall>b\<in>set ?bs. valid_board b"
    and sld: "\<forall>i. 0 < i \<and> i < length ?bs \<longrightarrow> slides_to (?bs ! nat (?ps ! i)) (?bs ! i)"
    by (simp_all add: search_inv_def)
  from reg have ne: "?bs \<noteq> []" and lps: "length ?ps = length ?bs"
    and par: "\<forall>i. 0 < i \<and> i < length ?bs \<longrightarrow> 0 \<le> ?ps ! i \<and> ?ps ! i < int i"
    by (simp_all add: registry_inv_def)
  have a0: "registry_inv
    (st\<lparr>list_of_all_boards := ?bs @ [nb], parent_index := ?ps @ [best],
        frontier_indices := frontier_indices st @ [int (length (?bs @ [nb])) - 1]\<rparr>)"
    using reg nb(2) best by (rule registry_inv_append)
  have a1: "(?bs @ [nb]) ! 0 = start" using st0 ne by (simp add: nth_append)
  have a2: "\<forall>b\<in>set (?bs @ [nb]). valid_board b" using val nb(1) by simp
  have a3: "slides_to ((?bs @ [nb]) ! nat ((?ps @ [best]) ! i)) ((?bs @ [nb]) ! i)"
    if i: "0 < i" "i < length (?bs @ [nb])" for i
  proof (cases "i < length ?bs")
    case True
    with par sld i(1) have p: "0 \<le> ?ps ! i" "?ps ! i < int i"
      "slides_to (?bs ! nat (?ps ! i)) (?bs ! i)" by simp_all
    from p(1,2) True have "nat (?ps ! i) < length ?bs" by simp
    with p True lps show ?thesis by (simp add: nth_append)
  next
    case False
    with i have "i = length ?bs" by simp
    moreover have "nat best < length ?bs" using best by simp
    ultimately show ?thesis using sl lps by (simp add: nth_append)
  qed
  show ?thesis
    unfolding search_inv_def using a0 a1 a2 a3 by simp
qed

lemma expand_loop_registry:
  "expand_loop best ns st = Inr st' \<Longrightarrow> registry_inv st \<Longrightarrow>
   0 \<le> best \<Longrightarrow> best < int (length (list_of_all_boards st)) \<Longrightarrow>
   best \<notin> set (frontier_indices st) \<Longrightarrow> registry_inv st'"
proof (induction ns arbitrary: st)
  case Nil
  then show ?case by simp
next
  case (Cons nb ns)
  let ?bs = "list_of_all_boards st"
  let ?st2 = "st\<lparr>list_of_all_boards := ?bs @ [nb],
        parent_index := parent_index st @ [best],
        frontier_indices := frontier_indices st @ [int (length (?bs @ [nb])) - 1]\<rparr>"
  from Cons.prems(1) obtain r where r: "find_board_index ?bs nb = Inr r"
    and e: "(if r = - 1 then expand_loop best ns ?st2 else expand_loop best ns st) = Inr st'"
    by (auto split: sum.splits)
  show ?case
  proof (cases "r = - 1")
    case True
    with r have "nb \<notin> set ?bs" by (simp add: find_board_index_absent)
    with Cons.prems(2) have inv2: "registry_inv ?st2"
      using Cons.prems(3,4,5) by (rule registry_inv_append)
    from e True have "expand_loop best ns ?st2 = Inr st'" by simp
    then show ?thesis using inv2 Cons.prems(3)
    proof (rule Cons.IH)
      show "best < int (length (list_of_all_boards ?st2))" using Cons.prems(4) by simp
      show "best \<notin> set (frontier_indices ?st2)" using Cons.prems(4,5) by simp
    qed
  next
    case False
    with e have "expand_loop best ns st = Inr st'" by simp
    then show ?thesis using Cons.prems(2,3,4,5) by (rule Cons.IH)
  qed
qed

lemma expand_loop_inv:
  "search_inv start st \<Longrightarrow> 0 \<le> best \<Longrightarrow> best < int (length (list_of_all_boards st)) \<Longrightarrow>
   best \<notin> set (frontier_indices st) \<Longrightarrow>
   \<forall>n\<in>set ns. valid_board n \<and> slides_to (list_of_all_boards st ! nat best) n \<Longrightarrow>
   \<exists>st'. expand_loop best ns st = Inr st' \<and> search_inv start st'"
proof (induction ns arbitrary: st)
  case Nil
  then show ?case by simp
next
  case (Cons nb ns)
  let ?bs = "list_of_all_boards st"
  let ?st2 = "st\<lparr>list_of_all_boards := ?bs @ [nb],
        parent_index := parent_index st @ [best],
        frontier_indices := frontier_indices st @ [int (length (?bs @ [nb])) - 1]\<rparr>"
  from Cons.prems(1) have val: "\<forall>b\<in>set ?bs. valid_board b"
    and frr: "\<forall>f\<in>set (frontier_indices st). 0 \<le> f \<and> f < int (length ?bs)"
    by (simp_all add: search_inv_def registry_inv_def)
  from Cons.prems(5) have nb: "valid_board nb" "slides_to (?bs ! nat best) nb" by simp_all
  have "\<forall>c\<in>set ?bs. length c = 16" using val by (simp add: valid_board_length)
  moreover have "length nb = 16" using nb(1) by (rule valid_board_length)
  ultimately obtain r where r: "find_board_index ?bs nb = Inr r" "r = - 1 \<longleftrightarrow> nb \<notin> set ?bs"
    using find_board_index_res by blast
  show ?case
  proof (cases "r = - 1")
    case True
    with r have new: "nb \<notin> set ?bs" by simp
    have inv2: "search_inv start ?st2"
      using Cons.prems(1) nb(1) new Cons.prems(2,3,4) nb(2) by (rule search_inv_append)
    have "\<exists>st'. expand_loop best ns ?st2 = Inr st' \<and> search_inv start st'"
    proof (rule Cons.IH[OF inv2])
      show "0 \<le> best" by fact
      show "best < int (length (list_of_all_boards ?st2))" using Cons.prems(3) by simp
      show "best \<notin> set (frontier_indices ?st2)" using Cons.prems(3,4) by simp
      have "nat best < length ?bs" using Cons.prems(2,3) by simp
      then show "\<forall>n\<in>set ns. valid_board n \<and> slides_to (list_of_all_boards ?st2 ! nat best) n"
        using Cons.prems(5) by (simp add: nth_append)
    qed
    with r True show ?thesis by simp
  next
    case False
    from Cons.IH[OF Cons.prems(1,2,3,4)] Cons.prems(5)
    have "\<exists>st'. expand_loop best ns st = Inr st' \<and> search_inv start st'" by simp
    with r False show ?thesis by simp
  qed
qed

lemma disjoint_indices_bound:
  assumes "distinct chain" "distinct fr"
    and "\<forall>x\<in>set chain. 0 \<le> x \<and> x < int n \<and> x \<notin> set fr"
    and "\<forall>f\<in>set fr. 0 \<le> f \<and> f < int n"
  shows "length chain + length fr \<le> n"
proof -
  have "distinct (chain @ fr)" using assms(1,2,3) by auto
  then have "length (chain @ fr) = card (set (chain @ fr))" by (simp only: distinct_card)
  also have "set (chain @ fr) \<subseteq> {0..<int n}" using assms(3,4) by auto
  then have "card (set (chain @ fr)) \<le> card {0..<int n}" by (intro card_mono) simp_all
  also have "card {0..<int n} = n" by simp
  finally show ?thesis by simp
qed

lemma registry_inv_pop:
  assumes inv: "registry_inv st"
    and bp: "bp < length (frontier_indices st)"
  shows "registry_inv
    (st\<lparr>frontier_indices := take bp (frontier_indices st) @ drop (Suc bp) (frontier_indices st),
        number_of_expanded_boards := number_of_expanded_boards st + 1\<rparr>)"
proof -
  let ?fr = "frontier_indices st"
  define fr' where "fr' = take bp ?fr @ drop (Suc bp) ?fr"
  from inv have dfr: "distinct ?fr" by (simp add: registry_inv_def)
  note pf = pop_facts[OF bp dfr]
  from pf(1) have d: "distinct fr'" by (simp only: fr'_def)
  from pf(3) have sub: "set fr' \<subseteq> set ?fr" by (simp only: fr'_def)
  from pf(4) have len: "int (length fr') + 1 = int (length ?fr)"
    unfolding fr'_def by linarith
  have "registry_inv (st\<lparr>frontier_indices := fr',
        number_of_expanded_boards := number_of_expanded_boards st + 1\<rparr>)"
    using inv d len sub unfolding registry_inv_def by (simp add: subset_iff) blast
  then show ?thesis by (simp only: fr'_def)
qed

lemma search_inv_pop:
  assumes inv: "search_inv start st"
    and bp: "bp < length (frontier_indices st)"
  shows "search_inv start
    (st\<lparr>frontier_indices := take bp (frontier_indices st) @ drop (Suc bp) (frontier_indices st),
        number_of_expanded_boards := number_of_expanded_boards st + 1\<rparr>)"
proof -
  from inv have "registry_inv st" by (simp add: search_inv_def)
  from registry_inv_pop[OF this bp] inv show ?thesis by (simp add: search_inv_def)
qed

subsection \<open>One iteration and the whole loop\<close>

lemma hd_map_rev: "xs \<noteq> [] \<Longrightarrow> hd (map f (rev xs)) = f (last xs)"
  by (simp add: hd_map hd_rev)

lemma last_map_rev: "xs \<noteq> [] \<Longrightarrow> last (map f (rev xs)) = f (hd xs)"
  by (simp add: last_map last_rev)

lemma reconstruct_path_chain:
  assumes inv: "registry_inv st"
    and bi: "0 \<le> bi" "bi < int (length (list_of_all_boards st))"
  obtains chain where
    "reconstruct_path (list_of_all_boards st) (parent_index st) bi
       = Some (Inr (map (\<lambda>i. list_of_all_boards st ! nat i) (rev (bi # chain))))"
    "last (bi # chain) = 0"
    "\<forall>x\<in>set chain. 0 \<le> x \<and> x < bi \<and> x \<notin> set (frontier_indices st)"
    "distinct (bi # chain)"
    "successively (\<lambda>a b. 0 < a \<and> b = parent_index st ! nat a) (bi # chain)"
proof -
  let ?bs = "list_of_all_boards st" and ?ps = "parent_index st" and ?fr = "frontier_indices st"
  from inv have ne: "?bs \<noteq> []"
    and lps: "length ?ps = length ?bs" and root: "?ps ! 0 = - 1"
    and par: "\<forall>i. 0 < i \<and> i < length ?bs \<longrightarrow>
        0 \<le> ?ps ! i \<and> ?ps ! i < int i \<and> ?ps ! i \<notin> set ?fr"
    by (simp_all add: registry_inv_def)
  have par': "\<forall>i. 0 < i \<and> i < length ?ps \<longrightarrow> 0 \<le> ?ps ! i \<and> ?ps ! i < int i \<and> ?ps ! i \<notin> set ?fr"
    using par lps by simp
  have l0: "0 < length ?ps" using ne lps by simp
  have nbi: "nat bi < length ?ps" using bi lps by simp
  from walk_parents_chain[OF root l0 par' nbi, of "[]"] bi(1) obtain chain where
    w: "walk_parents ?ps bi [] = Some (Inr (bi # chain))"
    and l: "last (bi # chain) = 0"
    and b: "\<forall>x\<in>set chain. 0 \<le> x \<and> x < bi \<and> x \<notin> set ?fr"
    and d: "distinct (bi # chain)"
    and s: "successively (\<lambda>a b. 0 < a \<and> b = ?ps ! nat a) (bi # chain)"
    by auto
  have "\<forall>i\<in>set (rev (bi # chain)). 0 \<le> i \<and> i < int (length ?bs)" using b bi by auto
  from collect_boards_map[OF this, of "[]"]
  have "collect_boards ?bs (rev (bi # chain)) [] = Inr (map (\<lambda>i. ?bs ! nat i) (rev (bi # chain)))"
    by simp
  with w have "reconstruct_path ?bs ?ps bi
      = Some (Inr (map (\<lambda>i. ?bs ! nat i) (rev (bi # chain))))"
    by (simp add: reconstruct_path_def)
  then show ?thesis using l b d s by (rule that)
qed

lemma reconstructed_path_structure:
  assumes inv: "registry_inv st"
    and bi: "0 \<le> bi" "bi < int (length (list_of_all_boards st))"
    and rec: "reconstruct_path (list_of_all_boards st) (parent_index st) bi = Some (Inr path)"
  shows "distinct path \<and> int (length path) \<le> number_of_expanded_boards st + 1"
proof -
  let ?bs = "list_of_all_boards st" and ?fr = "frontier_indices st"
  let ?f = "\<lambda>i. ?bs ! nat i"
  from inv have dis: "distinct ?bs"
    and frr: "\<forall>f\<in>set ?fr. 0 \<le> f \<and> f < int (length ?bs)"
    and dfr: "distinct ?fr"
    and cnt: "number_of_expanded_boards st + int (length ?fr) = int (length ?bs)"
    by (simp_all add: registry_inv_def)
  from inv bi obtain chain where
    r: "reconstruct_path ?bs (parent_index st) bi = Some (Inr (map ?f (rev (bi # chain))))"
    and b: "\<forall>x\<in>set chain. 0 \<le> x \<and> x < bi \<and> x \<notin> set ?fr"
    and d: "distinct (bi # chain)"
    by (rule reconstruct_path_chain)
  from r rec have path: "path = map ?f (rev (bi # chain))" by simp
  have rng: "\<forall>i\<in>set (rev (bi # chain)). 0 \<le> i \<and> i < int (length ?bs)" using b bi by auto
  have "inj_on ?f (set (rev (bi # chain)))"
  proof (rule inj_onI)
    fix x y assume x: "x \<in> set (rev (bi # chain))" and y: "y \<in> set (rev (bi # chain))"
      and e: "?f x = ?f y"
    from x y rng have "nat x < length ?bs" "nat y < length ?bs" "0 \<le> x" "0 \<le> y" by auto
    with e dis show "x = y" by (simp add: nth_eq_iff_index_eq)
  qed
  then have p5: "distinct path" unfolding path using d by (simp only: distinct_map distinct_rev)
  have "\<forall>x\<in>set chain. 0 \<le> x \<and> x < int (length ?bs) \<and> x \<notin> set ?fr" using b bi by auto
  with d have "length chain + length ?fr \<le> length ?bs"
    using dfr frr by (intro disjoint_indices_bound) simp_all
  with cnt have "int (length path) \<le> number_of_expanded_boards st + 1" unfolding path by simp
  with p5 show ?thesis by simp
qed

lemma reconstructed_path_found:
  assumes inv: "search_inv start st"
    and bi: "0 \<le> bi" "bi < int (length (list_of_all_boards st))"
    and goal: "list_of_all_boards st ! nat bi = GOAL_BOARD"
  shows "\<exists>path. reconstruct_path (list_of_all_boards st) (parent_index st) bi = Some (Inr path) \<and>
           found_path start (number_of_expanded_boards st + 1) path"
proof -
  let ?bs = "list_of_all_boards st" and ?ps = "parent_index st" and ?fr = "frontier_indices st"
  let ?f = "\<lambda>i. ?bs ! nat i"
  from inv have reg: "registry_inv st" and st0: "?bs ! 0 = start"
    and sld: "\<forall>i. 0 < i \<and> i < length ?bs \<longrightarrow> slides_to (?bs ! nat (?ps ! i)) (?bs ! i)"
    by (simp_all add: search_inv_def)
  from reg bi obtain chain where
    rec: "reconstruct_path ?bs ?ps bi = Some (Inr (map ?f (rev (bi # chain))))"
    and l: "last (bi # chain) = 0"
    and b: "\<forall>x\<in>set chain. 0 \<le> x \<and> x < bi \<and> x \<notin> set ?fr"
    and s: "successively (\<lambda>a b. 0 < a \<and> b = ?ps ! nat a) (bi # chain)"
    by (rule reconstruct_path_chain)
  let ?path = "map ?f (rev (bi # chain))"
  have rng: "\<forall>i\<in>set (bi # chain). 0 \<le> i \<and> i < int (length ?bs)" using b bi by auto
  have p1: "?path \<noteq> []" by simp
  have "hd ?path = ?f (last (bi # chain))" by (rule hd_map_rev) simp
  then have p2: "hd ?path = start" using l st0 by simp
  have "last ?path = ?f (hd (bi # chain))" by (rule last_map_rev) simp
  then have p3: "last ?path = GOAL_BOARD" using goal by simp
  have "successively (\<lambda>a b. slides_to (?f b) (?f a)) (bi # chain)"
  proof (rule successively_mono[OF s])
    fix x y assume x: "x \<in> set (bi # chain)" and "0 < x \<and> y = ?ps ! nat x"
    then have "0 < nat x" "y = ?ps ! nat x" by simp_all
    moreover have "nat x < length ?bs" using rng x by auto
    ultimately have "slides_to (?bs ! nat y) (?bs ! nat x)" using sld by simp
    then show "slides_to (?f y) (?f x)" .
  qed
  then have p4: "successively slides_to ?path"
    by (simp only: successively_map successively_rev)
  from reconstructed_path_structure[OF reg bi rec]
  have p5: "distinct ?path" and p6: "int (length ?path) \<le> number_of_expanded_boards st + 1"
    by simp_all
  from p1 p2 p3 p4 p5 p6 have "found_path start (number_of_expanded_boards st + 1) ?path"
    unfolding found_path_def by blast
  with rec show ?thesis by blast
qed

lemma search_step_selected:
  assumes inv: "registry_inv st"
    and sel: "select_best (list_of_all_boards st) (frontier_indices st) = Inr (sc, bi, bp)"
    and pop: "py_pop (frontier_indices st) bp = Inr fr'"
  shows "0 \<le> bi" "bi < int (length (list_of_all_boards st))"
    "registry_inv (st\<lparr>frontier_indices := fr',
        number_of_expanded_boards := number_of_expanded_boards st + 1\<rparr>)"
    "bi \<notin> set fr'"
proof -
  let ?bs = "list_of_all_boards st" and ?fr = "frontier_indices st"
  from inv have frr: "\<forall>f\<in>set ?fr. 0 \<le> f \<and> f < int (length ?bs)" and dfr: "distinct ?fr"
    by (simp_all add: registry_inv_def)
  from select_best_position[OF sel]
  have bp: "0 \<le> bp" "bp < int (length ?fr)" and bi: "?fr ! nat bp = bi" by simp_all
  have nbp: "nat bp < length ?fr" using bp by simp
  then have "bi \<in> set ?fr" using bi by auto
  with frr show "0 \<le> bi" "bi < int (length ?bs)" by simp_all
  from py_pop_Inr[OF pop bp(1)] have fr': "fr' = take (nat bp) ?fr @ drop (Suc (nat bp)) ?fr" .
  from registry_inv_pop[OF inv nbp]
  show "registry_inv (st\<lparr>frontier_indices := fr',
        number_of_expanded_boards := number_of_expanded_boards st + 1\<rparr>)"
    by (simp only: fr')
  from pop_facts(2)[OF nbp dfr] have "?fr ! nat bp \<notin> set fr'" unfolding fr' .
  then show "bi \<notin> set fr'" unfolding bi .
qed

lemma search_step_registry_continue:
  assumes inv: "registry_inv st"
    and step: "search_step st = Some (Inr (Continue st'))"
  shows "registry_inv st'"
proof -
  let ?bs = "list_of_all_boards st" and ?fr = "frontier_indices st"
  from step obtain sc bi bp fr' ns where
    sel: "select_best ?bs ?fr = Inr (sc, bi, bp)"
    and pop: "py_pop ?fr bp = Inr fr'"
    and ex: "expand_loop bi ns (st\<lparr>frontier_indices := fr',
        number_of_expanded_boards := number_of_expanded_boards st + 1\<rparr>) = Inr st'"
    by (auto simp: search_step_def Let_def
        split: sum.splits prod.splits option.splits bool.splits)
  note s = search_step_selected[OF inv sel pop]
  from ex s(3) s(1) _ _ show ?thesis
    by (rule expand_loop_registry) (simp_all add: s)
qed

lemma search_step_registry_return:
  assumes inv: "registry_inv st"
    and step: "search_step st = Some (Inr (Return path expanded))"
  shows "distinct path \<and> int (length path) \<le> expanded"
proof -
  let ?bs = "list_of_all_boards st" and ?fr = "frontier_indices st"
  from step obtain sc bi bp fr' where
    sel: "select_best ?bs ?fr = Inr (sc, bi, bp)"
    and pop: "py_pop ?fr bp = Inr fr'"
    and rec: "reconstruct_path ?bs (parent_index st) bi = Some (Inr path)"
    and n: "expanded = number_of_expanded_boards st + 1"
    by (auto simp: search_step_def Let_def
        split: sum.splits prod.splits option.splits bool.splits)
  note s = search_step_selected[OF inv sel pop]
  from reconstructed_path_structure[OF inv s(1) s(2) rec] n show ?thesis by simp
qed

lemma search_loop_registry:
  "registry_inv st \<Longrightarrow> search_loop limit st = Some (Inr (Some path, expanded)) \<Longrightarrow>
   distinct path \<and> int (length path) \<le> expanded"
proof (induction limit st rule: search_loop.induct)
  case (1 limit st)
  from "1.prems"(2) have guard: "length (frontier_indices st) > 0 \<and>
      number_of_expanded_boards st < limit"
    by (subst (asm) search_loop.simps) (auto split: if_splits)
  with "1.prems"(2) have unf:
    "(case search_step st of
        None \<Rightarrow> None
      | Some (Inl e) \<Rightarrow> Some (Inl e)
      | Some (Inr (Return path_of_boards expanded)) \<Rightarrow> Some (Inr (Some path_of_boards, expanded))
      | Some (Inr (Continue st')) \<Rightarrow> search_loop limit st')
     = Some (Inr (Some path, expanded))"
    by (subst (asm) search_loop.simps) simp
  show ?case
  proof (cases "search_step st")
    case None
    with unf show ?thesis by simp
  next
    case (Some r)
    show ?thesis
    proof (cases r)
      case (Inl e)
      with Some unf show ?thesis by simp
    next
      case (Inr res)
      show ?thesis
      proof (cases res)
        case (Return p n)
        with Some Inr unf have "search_step st = Some (Inr (Return path expanded))" by simp
        with "1.prems"(1) show ?thesis by (rule search_step_registry_return)
      next
        case (Continue st')
        with Some Inr have step: "search_step st = Some (Inr (Continue st'))" by simp
        with unf have "search_loop limit st' = Some (Inr (Some path, expanded))" by simp
        moreover have "registry_inv st'"
          using "1.prems"(1) step by (rule search_step_registry_continue)
        ultimately show ?thesis using "1.IH"[OF guard step refl refl] by simp
      qed
    qed
  qed
qed

lemma search_step_inv:
  assumes inv: "search_inv start st" and ne: "frontier_indices st \<noteq> []"
  shows "(\<exists>st'. search_step st = Some (Inr (Continue st')) \<and> search_inv start st') \<or>
         (\<exists>path. search_step st
                    = Some (Inr (Return path (number_of_expanded_boards st + 1))) \<and>
                 found_path start (number_of_expanded_boards st + 1) path)"
proof -
  let ?bs = "list_of_all_boards st" and ?ps = "parent_index st" and ?fr = "frontier_indices st"
  from inv have val: "\<forall>b\<in>set ?bs. valid_board b"
    and frr: "\<forall>f\<in>set ?fr. 0 \<le> f \<and> f < int (length ?bs)"
    and dfr: "distinct ?fr"
    by (simp_all add: search_inv_def registry_inv_def)
  from select_best_res[OF val frr ne] obtain sc bi bp where
    sel: "select_best ?bs ?fr = Inr (sc, bi, bp)"
    and bp: "0 \<le> bp" "bp < int (length ?fr)" and bi: "?fr ! nat bp = bi"
    by blast
  let ?fr' = "take (nat bp) ?fr @ drop (Suc (nat bp)) ?fr"
  let ?st1 = "st\<lparr>frontier_indices := ?fr',
                   number_of_expanded_boards := number_of_expanded_boards st + 1\<rparr>"
  have nbp: "nat bp < length ?fr" using bp by simp
  have pop: "py_pop ?fr bp = Inr ?fr'" using bp by (rule py_pop_int)
  have "bi \<in> set ?fr" using bi nbp by auto
  with frr have bir: "0 \<le> bi" "bi < int (length ?bs)" by simp_all
  then have get: "py_get ?bs bi = Inr (?bs ! nat bi)" by (rule py_get_int)
  have "?bs ! nat bi \<in> set ?bs" using bir by simp
  with val have vcur: "valid_board (?bs ! nat bi)" by simp
  have eq: "boards_are_equal (?bs ! nat bi) GOAL_BOARD = Inr (?bs ! nat bi = GOAL_BOARD)"
    using valid_board_length[OF vcur] valid_board_length[OF valid_board_GOAL]
    by (rule boards_are_equal_eq)
  show ?thesis
  proof (cases "?bs ! nat bi = GOAL_BOARD")
    case True
    from reconstructed_path_found[OF inv bir True] obtain path where
      "reconstruct_path ?bs ?ps bi = Some (Inr path)"
      "found_path start (number_of_expanded_boards st + 1) path" by blast
    with sel pop get eq True show ?thesis by (simp add: search_step_def)
  next
    case False
    from neighbor_count[OF vcur] obtain ns where
      gen: "generate_all_neighbor_boards (?bs ! nat bi) = Inr ns" by blast
    have nsv: "\<forall>n\<in>set ns. valid_board n \<and> slides_to (list_of_all_boards ?st1 ! nat bi) n"
      using neighbor_valid[OF vcur gen] gen by (simp add: slides_to_def)
    have inv1: "search_inv start ?st1" using inv nbp by (rule search_inv_pop)
    have notin: "bi \<notin> set (frontier_indices ?st1)"
      using pop_facts(2)[OF nbp dfr] bi by simp
    have "\<exists>st'. expand_loop bi ns ?st1 = Inr st' \<and> search_inv start st'"
      using inv1 bir(1) _ notin nsv by (rule expand_loop_inv) (simp add: bir(2))
    with sel pop get eq False gen show ?thesis by (auto simp: search_step_def)
  qed
qed

lemma search_loop_correct:
  "search_inv start st \<Longrightarrow>
   \<exists>result expanded. search_loop limit st = Some (Inr (result, expanded)) \<and>
      number_of_expanded_boards st \<le> expanded \<and>
      expanded \<le> max limit (number_of_expanded_boards st) \<and>
      (\<forall>path. result = Some path \<longrightarrow> found_path start expanded path)"
proof (induction limit st rule: search_loop.induct)
  case (1 limit st)
  show ?case
  proof (cases "length (frontier_indices st) > 0 \<and> number_of_expanded_boards st < limit")
    case False
    then show ?thesis by (subst search_loop.simps) auto
  next
    case True
    then have ne: "frontier_indices st \<noteq> []" by auto
    from search_step_inv[OF "1.prems" ne] show ?thesis
    proof (elim disjE exE conjE)
      fix st' assume step: "search_step st = Some (Inr (Continue st'))"
        and inv': "search_inv start st'"
      from step have c: "number_of_expanded_boards st' = number_of_expanded_boards st + 1"
        by (rule search_step_counter)
      from "1.IH"[OF True step refl refl inv'] obtain result expanded where
        r: "search_loop limit st' = Some (Inr (result, expanded))"
        "number_of_expanded_boards st' \<le> expanded"
        "expanded \<le> max limit (number_of_expanded_boards st')"
        "\<forall>path. result = Some path \<longrightarrow> found_path start expanded path" by blast
      have "search_loop limit st = search_loop limit st'"
        using True step by (subst search_loop.simps) simp
      with r c True show ?thesis by (intro exI[of _ result] exI[of _ expanded]) auto
    next
      fix path
      assume step: "search_step st = Some (Inr (Return path (number_of_expanded_boards st + 1)))"
        and f: "found_path start (number_of_expanded_boards st + 1) path"
      have "search_loop limit st = Some (Inr (Some path, number_of_expanded_boards st + 1))"
        using True step by (subst search_loop.simps) simp
      with f True show ?thesis by auto
    qed
  qed
qed

lemma slides_to_iff:
  "slides_to b n \<longleftrightarrow> (\<exists>ns. generate_all_neighbor_boards b = Inr ns \<and> n \<in> set ns)"
  by (simp add: slides_to_def split: sum.splits)

lemma search_correct:
  assumes "valid_board start"
  shows "\<exists>result expanded. greedy_best_first_search start limit = Some (Inr (result, expanded)) \<and>
      0 \<le> expanded \<and> expanded \<le> max 0 limit \<and>
      (\<forall>path. result = Some path \<longrightarrow> found_path start expanded path)"
proof -
  have "number_of_expanded_boards (initial_state start) = 0" by (simp add: initial_state_def)
  with search_loop_correct[OF search_inv_initial[OF assms], of limit]
  show ?thesis unfolding greedy_best_first_search_def by (simp add: max.commute)
qed

lemma search_found_path:
  assumes "valid_board start"
    and "greedy_best_first_search start limit = Some (Inr (Some path, expanded))"
  shows "found_path start expanded path"
  using search_correct[OF assms(1), of limit] assms(2) by simp

lemma search_one_away:
  "greedy_best_first_search [1, 2, 3, 4, 5, 6, 7, 8, 9, 10, 11, 12, 13, 14, 0, 15] 100000
   = Some (Inr (Some [[1, 2, 3, 4, 5, 6, 7, 8, 9, 10, 11, 12, 13, 14, 0, 15], GOAL_BOARD], 2))"
  by code_simp

lemma valid_board_one_away: "valid_board [1, 2, 3, 4, 5, 6, 7, 8, 9, 10, 11, 12, 13, 14, 0, 15]"
  by code_simp

subsection \<open>The returned path\<close>

text \<open>
  C1: for every valid start board and every expansion limit, a path returned by
  \<open>greedy_best_first_search\<close> is a non-empty list of boards that begins with the start
  board, ends with the Goal Board, and in which each board is followed by one of the
  boards that \<open>generate_all_neighbor_boards\<close> produces for it.
\<close>

theorem search_path_is_solution:
  assumes "valid_board starting_board"
    and "greedy_best_first_search starting_board maximum_number_of_expansions
           = Some (Inr (Some path_of_boards, expanded))"
  shows "path_of_boards \<noteq> [] \<and> hd path_of_boards = starting_board \<and>
         last path_of_boards = GOAL_BOARD \<and>
         (\<forall>i. Suc i < length path_of_boards \<longrightarrow>
            (\<exists>neighbor_boards.
               generate_all_neighbor_boards (path_of_boards ! i) = Inr neighbor_boards \<and>
               path_of_boards ! Suc i \<in> set neighbor_boards))"
proof -
  from assms have f: "found_path starting_board expanded path_of_boards"
    by (rule search_found_path)
  then have "successively slides_to path_of_boards" by (simp add: found_path_def)
  then have "\<forall>i. Suc i < length path_of_boards \<longrightarrow>
      slides_to (path_of_boards ! i) (path_of_boards ! Suc i)"
    by (simp only: successively_nth)
  with f show ?thesis by (simp add: found_path_def slides_to_iff)
qed

theorem search_path_is_solution_witness:
  "valid_board [1, 2, 3, 4, 5, 6, 7, 8, 9, 10, 11, 12, 13, 14, 0, 15] \<and>
   greedy_best_first_search [1, 2, 3, 4, 5, 6, 7, 8, 9, 10, 11, 12, 13, 14, 0, 15] 100000
     = Some (Inr (Some [[1, 2, 3, 4, 5, 6, 7, 8, 9, 10, 11, 12, 13, 14, 0, 15], GOAL_BOARD], 2)) \<and>
   (\<exists>neighbor_boards.
      generate_all_neighbor_boards [1, 2, 3, 4, 5, 6, 7, 8, 9, 10, 11, 12, 13, 14, 0, 15]
        = Inr neighbor_boards \<and>
      GOAL_BOARD \<in> set neighbor_boards)"
proof -
  note t = search_path_is_solution[OF valid_board_one_away search_one_away]
  from t[THEN conjunct2, THEN conjunct2, THEN conjunct2, rule_format, of 0]
  have "\<exists>neighbor_boards.
      generate_all_neighbor_boards [1, 2, 3, 4, 5, 6, 7, 8, 9, 10, 11, 12, 13, 14, 0, 15]
        = Inr neighbor_boards \<and>
      GOAL_BOARD \<in> set neighbor_boards"
    by simp
  with valid_board_one_away search_one_away show ?thesis by (intro conjI)
qed

lemma search_path_structure:
  assumes "greedy_best_first_search start limit = Some (Inr (Some path, expanded))"
  shows "distinct path \<and> int (length path) \<le> expanded"
  using registry_inv_initial assms unfolding greedy_best_first_search_def
  by (rule search_loop_registry)

text \<open>
  C9: whenever \<open>greedy_best_first_search\<close> returns a path, whatever the start board and
  the limit, the boards of the path are pairwise different.
\<close>

theorem search_path_distinct:
  assumes "greedy_best_first_search starting_board maximum_number_of_expansions
           = Some (Inr (Some path_of_boards, expanded))"
  shows "distinct path_of_boards"
  using search_path_structure[OF assms] by simp

theorem search_path_distinct_witness:
  "greedy_best_first_search [1, 2, 3, 4, 5, 6, 7, 8, 9, 10, 11, 12, 13, 14, 0, 15] 100000
     = Some (Inr (Some [[1, 2, 3, 4, 5, 6, 7, 8, 9, 10, 11, 12, 13, 14, 0, 15], GOAL_BOARD], 2)) \<and>
   distinct [[1, 2, 3, 4, 5, 6, 7, 8, 9, 10, 11, 12, 13, 14, 0, 15], GOAL_BOARD]"
  using search_one_away search_path_distinct[OF search_one_away]
  by (rule conjI)

text \<open>
  C10: whenever \<open>greedy_best_first_search\<close> returns a path, whatever the start board and
  the limit, the length of the path is at most the expansion count returned with it.
\<close>

theorem search_path_length_le_expansions:
  assumes "greedy_best_first_search starting_board maximum_number_of_expansions
           = Some (Inr (Some path_of_boards, expanded))"
  shows "int (length path_of_boards) \<le> expanded"
  using search_path_structure[OF assms] by simp

theorem search_path_length_le_expansions_witness:
  "greedy_best_first_search [1, 2, 3, 4, 5, 6, 7, 8, 9, 10, 11, 12, 13, 14, 0, 15] 100000
     = Some (Inr (Some [[1, 2, 3, 4, 5, 6, 7, 8, 9, 10, 11, 12, 13, 14, 0, 15], GOAL_BOARD], 2)) \<and>
   int (length [[1, 2, 3, 4, 5, 6, 7, 8, 9, 10, 11, 12, 13, 14, 0, 15], GOAL_BOARD]) \<le> 2"
  using search_one_away search_path_length_le_expansions[OF search_one_away]
  by (rule conjI)

subsection \<open>Termination and the expansion count\<close>

text \<open>
  C4: for every valid start board and every expansion limit (a number of iterations,
  so not negative), the search terminates and returns a result without raising, and
  the expansion count it returns is at least 0 and never exceeds the limit. The
  counter grows by exactly one in each iteration (\<open>search_step_counter\<close>), so the
  returned count is the number of iterations the loop ran.
\<close>

theorem search_terminates_within_limit:
  assumes "valid_board starting_board"
    and "0 \<le> maximum_number_of_expansions"
  shows "\<exists>result expanded.
           greedy_best_first_search starting_board maximum_number_of_expansions
             = Some (Inr (result, expanded)) \<and>
           0 \<le> expanded \<and> expanded \<le> maximum_number_of_expansions"
proof -
  from search_correct[OF assms(1), of maximum_number_of_expansions] obtain result expanded
    where "greedy_best_first_search starting_board maximum_number_of_expansions
             = Some (Inr (result, expanded))"
      and "0 \<le> expanded" and "expanded \<le> max 0 maximum_number_of_expansions"
    by blast
  with assms(2) show ?thesis by (intro exI[of _ result] exI[of _ expanded]) simp
qed

theorem search_terminates_within_limit_witness:
  "valid_board [1, 2, 3, 4, 5, 6, 7, 8, 9, 10, 11, 12, 13, 14, 0, 15] \<and>
   (0 :: int) \<le> 1 \<and>
   (\<exists>result expanded.
      greedy_best_first_search [1, 2, 3, 4, 5, 6, 7, 8, 9, 10, 11, 12, 13, 14, 0, 15] 1
        = Some (Inr (result, expanded)) \<and>
      0 \<le> expanded \<and> expanded \<le> 1)"
proof -
  have l: "(0 :: int) \<le> 1" by simp
  from valid_board_one_away l search_terminates_within_limit[OF valid_board_one_away l]
  show ?thesis by (intro conjI)
qed

section \<open>Boundary and end-to-end behaviour of the search\<close>

text \<open>
  C5: with \<open>maximum_number_of_expansions = 0\<close> the loop is never entered, so the search
  returns no path and an expansion count of 0 for every start board, the Goal Board
  included: the goal test sits inside the loop, after the counter is incremented.
\<close>

theorem search_limit_zero:
  "greedy_best_first_search starting_board 0 = Some (Inr (None, 0))"
  unfolding greedy_best_first_search_def initial_state_def
  by (subst search_loop.simps) simp

text \<open>
  C3 (as the spec states it): the search from \<open>[1,...,13,0,14,15]\<close> with the default limit
  would return the two-board path from that start to the Goal Board with expansion
  count 1. It does not: the blank is two slides away from its goal cell.
\<close>

theorem search_two_away_not_length_two:
  "greedy_best_first_search [1, 2, 3, 4, 5, 6, 7, 8, 9, 10, 11, 12, 13, 0, 14, 15]
     default_maximum_number_of_expansions
   \<noteq> Some (Inr (Some [[1, 2, 3, 4, 5, 6, 7, 8, 9, 10, 11, 12, 13, 0, 14, 15], GOAL_BOARD], 1))"
  by code_simp

text \<open>
  C3 (amended): the search from \<open>[1,...,13,0,14,15]\<close> with the default limit returns a path
  of length 3 (the start board, the board \<open>[1,...,13,14,0,15]\<close> and the Goal Board) with
  expansion count 3.
\<close>

theorem search_two_away:
  "greedy_best_first_search [1, 2, 3, 4, 5, 6, 7, 8, 9, 10, 11, 12, 13, 0, 14, 15]
     default_maximum_number_of_expansions
   = Some (Inr (Some [[1, 2, 3, 4, 5, 6, 7, 8, 9, 10, 11, 12, 13, 0, 14, 15],
                      [1, 2, 3, 4, 5, 6, 7, 8, 9, 10, 11, 12, 13, 14, 0, 15],
                      GOAL_BOARD], 3))"
  by code_simp

end
